theory Spec2Isabelle
  imports Main "HOL-Library.Word" "HOL-Library.Char_ord" "HOL-Library.List_Lexorder"
    "HOL-Library.Multiset"
begin

section \<open>Existence proofs of veriff.io: the proof document and its verification\<close>

text \<open>
  This theory embeds package \<open>proof\<close> of the Go client: the document types of
  \<open>proof.go\<close>, the operation registry, and \<open>Verify\<close> with its recursive helper
  \<open>recData\<close> from \<open>prove.go\<close>.

  Conventions of the embedding:
  \<^item> a \<open>[]byte\<close> is a list of 8-bit words; a nil slice and an empty slice are both \<open>[]\<close>
    (the code only ever tests them with \<open>len\<close> and \<open>bytes.Compare\<close>, which do not
    tell them apart);
  \<^item> Go's \<open>int\<close> is a 64-bit two's complement word (the size it has on amd64 and
    arm64): \<open>-\<close> wraps, comparisons are the signed ones, and \<open>len\<close> is read as a
    mathematical integer;
  \<^item> a returned \<open>error\<close> is a value of the datatype \<open>error\<close>, one constructor per
    message of \<open>prove.go\<close>; a run-time panic of a slice index is the constructor
    \<open>IndexOutOfRange\<close>;
  \<^item> the hash functions come from libraries outside the repository
    (\<open>crypto/sha256\<close>, \<open>golang.org/x/crypto/sha3\<close>) and are parameters of the model;
  \<^item> \<open>recData\<close> is recursive on a position of the document and is given fuel: the
    result \<open>None\<close> stands for a recursion that has not returned;
  \<^item> Go leaves the order in which \<open>range\<close> walks a map unspecified. Every such loop
    draws a number from a tape and walks the keys in the permutation that number selects.
\<close>

type_synonym byte = "8 word"

type_synonym bytes = "byte list"

type_synonym int64 = "64 word"

subsection \<open>proof.go: the document\<close>

record Operation =
  oType :: string
  oData :: "int64 list"

text \<open>The \<open>time.Time\<close> of a reference is kept as a number; \<open>Verify\<close> never reads it.\<close>

record Reference =
  rData :: int64
  rTimestamp :: int
  rRef :: string

record Proof =
  Operations :: "Operation list"
  Data :: "bytes list"
  References :: "Reference list"

record VerifiedReference =
  vrData :: bytes
  vrRef :: string
  vrHashes :: "string list"

definition HashFunctions :: "VerifiedReference \<Rightarrow> string list" where
  "HashFunctions vr = vrHashes vr"

subsection \<open>The errors of Verify\<close>

datatype error =
    NoDataToVerify                 \<comment> \<open>"no data to verify"\<close>
  | NoDataInProof                  \<comment> \<open>"no data in proof"\<close>
  | DataEmpty nat                  \<comment> \<open>"data number i is empty"\<close>
  | NoReference                    \<comment> \<open>"no referene"\<close>
  | UnknownOperation string        \<comment> \<open>"unknown operation 'type'"\<close>
  | OperationWithoutInput          \<comment> \<open>"each operation mush have an input"\<close>
  | OutputNotYetCalculated int64   \<comment> \<open>"referencing a output not yet calculated di"\<close>
  | UndefinedDataElement int64     \<comment> \<open>"refering to undefined data element di"\<close>
  | EmptyReference                 \<comment> \<open>"cannot have empty reference"\<close>
  | ReferenceNonExisting int64     \<comment> \<open>"reference refers to non-existing data r.Data"\<close>
  | ReferenceNotCalculated         \<comment> \<open>"reference must refer to calculated data"\<close>
  | ProvesNothing                  \<comment> \<open>"the proof proves nothing for the input data"\<close>
  | IndexOutOfRange                \<comment> \<open>run-time panic: index out of range\<close>

subsection \<open>The operation registry\<close>

text \<open>The two library hash functions, as parameters.\<close>

record hashlib =
  Sum256 :: "bytes \<Rightarrow> bytes"
  Sum512 :: "bytes \<Rightarrow> bytes"

definition SHA2_256 :: string where
  "SHA2_256 = ''sha2_256''"

definition SHA3_512 :: string where
  "SHA3_512 = ''sha3_512''"

definition opSha2_256 :: "hashlib \<Rightarrow> bytes \<Rightarrow> bytes" where
  "opSha2_256 H inp = Sum256 H inp"

definition opSha3_512 :: "hashlib \<Rightarrow> bytes \<Rightarrow> bytes" where
  "opSha3_512 H inp = Sum512 H inp"

text \<open>The map \<open>operations\<close>; a key that is absent yields the nil function, here \<open>None\<close>.\<close>

definition operations :: "hashlib \<Rightarrow> string \<Rightarrow> (bytes \<Rightarrow> bytes) option" where
  "operations H name =
     (if name = SHA2_256 then Some (opSha2_256 H)
      else if name = SHA3_512 then Some (opSha3_512 H)
      else None)"

subsection \<open>Iterating over a Go map\<close>

text \<open>
  A \<open>map[string]struct{}\<close> is kept as the list of its keys, without repetition.
  \<open>mapInsert\<close> is \<open>h[k] = struct{}{}\<close>.
\<close>

definition mapInsert :: "string \<Rightarrow> string list \<Rightarrow> string list" where
  "mapInsert k h = (if k \<in> set h then h else h @ [k])"

text \<open>
  \<open>permute r xs\<close> is the permutation of \<open>xs\<close> selected by the number \<open>r\<close>: the next
  element is picked by \<open>r mod length\<close>, the rest is permuted by \<open>r div length\<close>.
\<close>

function permute :: "nat \<Rightarrow> 'a list \<Rightarrow> 'a list" where
  "permute r [] = []"
| "permute r (x # xs) =
     (let ys = x # xs; i = r mod length ys
      in ys ! i # permute (r div length ys) (take i ys @ drop (Suc i) ys))"
  by pat_completeness auto
termination
  by (relation "measure (\<lambda>(r, xs). length xs)") auto

subsection \<open>prove.go: recData\<close>

text \<open>
  The loop of \<open>recData\<close> over the inputs of one operation. \<open>rec\<close> is the recursive
  call, \<open>ty\<close> the type of the operation; the state is \<open>o1\<close>, \<open>o2\<close>, the map \<open>h\<close> and
  the position on the tape.
\<close>

fun recLoop ::
  "(int64 \<Rightarrow> nat \<Rightarrow> (error + ((bool \<times> bool \<times> string list) \<times> nat)) option) \<Rightarrow> string \<Rightarrow>
   int64 list \<Rightarrow> (bool \<times> bool \<times> string list) \<Rightarrow> nat \<Rightarrow>
   (error + ((bool \<times> bool \<times> string list) \<times> nat)) option" where
  "recLoop rec ty [] acc c = Some (Inr (acc, c))"
| "recLoop rec ty (nPos # rest) (o1, o2, h) c =
     (case rec nPos c of
        None \<Rightarrow> None
      | Some (Inl e) \<Rightarrow> Some (Inl e)
      | Some (Inr ((okd, okt, hashes), c')) \<Rightarrow>
          if okd \<or> okt then
            (let hashes' = (if ty \<in> set hashes then hashes else hashes @ [ty]);
                 h' = foldl (\<lambda>m hs. mapInsert hs m) h hashes'
             in recLoop rec ty rest (o1 \<or> okd, o2 \<or> okt, h') c')
          else recLoop rec ty rest (o1, o2, h) c')"

fun recData ::
  "nat \<Rightarrow> (nat \<Rightarrow> nat) \<Rightarrow> Proof \<Rightarrow> bytes \<Rightarrow> bytes \<Rightarrow> int64 \<Rightarrow> nat \<Rightarrow>
   (error + ((bool \<times> bool \<times> string list) \<times> nat)) option" where
  "recData 0 tape p dat tdata pos c = None"
| "recData (Suc fuel) tape p dat tdata pos c =
     (if 0 \<le>s pos then
        (if sint pos < int (length (Data p))
         then Some (Inr ((dat = Data p ! nat (sint pos), tdata = Data p ! nat (sint pos), []), c))
         else Some (Inl IndexOutOfRange))
      else
        (let i = sint (- pos - 1) in
         if 0 \<le> i \<and> i < int (length (Operations p)) then
           (case recLoop (\<lambda>nPos c'. recData fuel tape p dat tdata nPos c')
                   (oType (Operations p ! nat i)) (oData (Operations p ! nat i))
                   (False, False, []) c of
              None \<Rightarrow> None
            | Some (Inl e) \<Rightarrow> Some (Inl e)
            | Some (Inr ((o1, o2, h), c')) \<Rightarrow>
                Some (Inr ((o1, o2, permute (tape c') h), Suc c')))
         else Some (Inl IndexOutOfRange)))"

subsection \<open>prove.go: Verify\<close>

text \<open>\<open>binary.BigEndian.PutUint64\<close> on a fresh buffer of 8 bytes.\<close>

definition PutUint64 :: "64 word \<Rightarrow> bytes" where
  "PutUint64 v = map (\<lambda>k. ucast (drop_bit (8 * (7 - k)) v)) [0..<8]"

definition timestampData :: "int64 \<Rightarrow> bytes" where
  "timestampData timestamp = (if timestamp \<noteq> 0 then PutUint64 timestamp else [])"

text \<open>The index of the first empty entry of \<open>p.Data\<close>, counted from \<open>i\<close>.\<close>

fun firstEmpty :: "nat \<Rightarrow> bytes list \<Rightarrow> nat option" where
  "firstEmpty i [] = None"
| "firstEmpty i (v # vs) = (if length v < 1 then Some i else firstEmpty (Suc i) vs)"

text \<open>The loop over the inputs of one operation, filling \<open>inBuf\<close>.\<close>

fun operationInput :: "Proof \<Rightarrow> bytes list \<Rightarrow> int64 list \<Rightarrow> bytes \<Rightarrow> error + bytes" where
  "operationInput p outData [] inBuf = Inr inBuf"
| "operationInput p outData (di # rest) inBuf =
     (if di <s 0 then
        (if int (length outData) < sint (- di) then Inl (OutputNotYetCalculated di)
         else
           (let i = sint (- di - 1) in
            if 0 \<le> i \<and> i < int (length outData)
            then operationInput p outData rest (inBuf @ outData ! nat i)
            else Inl IndexOutOfRange))
      else if sint di < int (length (Data p))
        then operationInput p outData rest (inBuf @ Data p ! nat (sint di))
      else Inl (UndefinedDataElement di))"

text \<open>The loop over \<open>p.Operations\<close>, appending to \<open>outData\<close>.\<close>

fun runOperations :: "hashlib \<Rightarrow> Proof \<Rightarrow> Operation list \<Rightarrow> bytes list \<Rightarrow> error + bytes list" where
  "runOperations H p [] outData = Inr outData"
| "runOperations H p (opn # rest) outData =
     (case operations H (oType opn) of
        None \<Rightarrow> Inl (UnknownOperation (oType opn))
      | Some op \<Rightarrow>
          if length (oData opn) \<le> 0 then Inl OperationWithoutInput
          else
            (case operationInput p outData (oData opn) [] of
               Inl e \<Rightarrow> Inl e
             | Inr inBuf \<Rightarrow> runOperations H p rest (outData @ [op inBuf])))"

text \<open>The first loop over \<open>p.References\<close>, filling \<open>refData\<close>.\<close>

fun resolveReferences ::
  "Proof \<Rightarrow> bytes list \<Rightarrow> Reference list \<Rightarrow> VerifiedReference list \<Rightarrow>
   error + VerifiedReference list" where
  "resolveReferences p outData [] refData = Inr refData"
| "resolveReferences p outData (r # rest) refData =
     (if rRef r = [] then Inl EmptyReference
      else if rData r <s 0 then
        (if sint (- rData r) \<le> int (length outData) then
           (let i = sint (- rData r - 1) in
            if 0 \<le> i \<and> i < int (length outData)
            then resolveReferences p outData rest
                   (refData @ [\<lparr>vrData = outData ! nat i, vrRef = rRef r, vrHashes = []\<rparr>])
            else Inl IndexOutOfRange)
         else Inl (ReferenceNonExisting (rData r)))
      else if sint (rData r) < int (length (Data p)) then Inl ReferenceNotCalculated
      else Inl (ReferenceNonExisting (rData r)))"

text \<open>
  The second loop over \<open>p.References\<close>: the walk from each reference, and the accepted
  references appended to \<open>refs\<close>. The loop runs over the references paired with their
  entries of \<open>refData\<close>.
\<close>

fun trustLoop ::
  "nat \<Rightarrow> (nat \<Rightarrow> nat) \<Rightarrow> Proof \<Rightarrow> bytes \<Rightarrow> bytes \<Rightarrow> (Reference \<times> VerifiedReference) list \<Rightarrow>
   VerifiedReference list \<Rightarrow> nat \<Rightarrow> (error + VerifiedReference list) option" where
  "trustLoop fuel tape p dat tdata [] refs c = Some (Inr refs)"
| "trustLoop fuel tape p dat tdata ((r, rd) # rest) refs c =
     (case recData fuel tape p dat tdata (rData r) c of
        None \<Rightarrow> None
      | Some (Inl e) \<Rightarrow> Some (Inl e)
      | Some (Inr ((ok1, ok2, hashes), c')) \<Rightarrow>
          if ok1 \<and> (length tdata = 0 \<or> ok2)
          then trustLoop fuel tape p dat tdata rest (refs @ [rd\<lparr>vrHashes := sort hashes\<rparr>]) c'
          else trustLoop fuel tape p dat tdata rest refs c')"

definition Verify ::
  "hashlib \<Rightarrow> nat \<Rightarrow> (nat \<Rightarrow> nat) \<Rightarrow> nat \<Rightarrow> Proof \<Rightarrow> bytes \<Rightarrow> int64 \<Rightarrow>
   (error + VerifiedReference list) option" where
  "Verify H fuel tape c p dat timestamp =
     (if length dat \<le> 0 then Some (Inl NoDataToVerify)
      else if length (Data p) \<le> 0 then Some (Inl NoDataInProof)
      else
        (case firstEmpty 0 (Data p) of
           Some i \<Rightarrow> Some (Inl (DataEmpty i))
         | None \<Rightarrow>
             if length (References p) \<le> 0 then Some (Inl NoReference)
             else
               (let tdata = timestampData timestamp in
                case runOperations H p (Operations p) [] of
                  Inl e \<Rightarrow> Some (Inl e)
                | Inr outData \<Rightarrow>
                    (case resolveReferences p outData (References p) [] of
                       Inl e \<Rightarrow> Some (Inl e)
                     | Inr refData \<Rightarrow>
                         (case trustLoop fuel tape p dat tdata (zip (References p) refData) [] c of
                            None \<Rightarrow> None
                          | Some (Inl e) \<Rightarrow> Some (Inl e)
                          | Some (Inr refs) \<Rightarrow>
                              if length refs \<le> 0 then Some (Inl ProvesNothing)
                              else Some (Inr refs))))))"

section \<open>Positions, the walk of recData, and what it finds\<close>

text \<open>
  A position is an index as the document writes it: a non-negative position \<open>i\<close> is the
  literal \<open>Data[i]\<close>, a negative position \<open>-k\<close> is the output of the \<open>k\<close>-th operation.
  \<open>inRange p k pos\<close>: the position resolves against the literals of \<open>p\<close> and the
  first \<open>k\<close> outputs.
\<close>

definition inRange :: "Proof \<Rightarrow> nat \<Rightarrow> int64 \<Rightarrow> bool" where
  "inRange p k pos =
     (if pos <s 0 then - sint pos \<le> int k else sint pos < int (length (Data p)))"

text \<open>
  \<open>edge p m n\<close>: at the operation position \<open>m\<close>, \<open>recData\<close> calls itself at \<open>n\<close>.
  \<open>visits p pos n\<close>: the walk that starts at \<open>pos\<close> comes to \<open>n\<close>.
\<close>

definition edge :: "Proof \<Rightarrow> int64 \<Rightarrow> int64 \<Rightarrow> bool" where
  "edge p m n =
     (m <s 0 \<and> sint (- m - 1) < int (length (Operations p)) \<and>
      n \<in> set (oData (Operations p ! nat (sint (- m - 1)))))"

definition visits :: "Proof \<Rightarrow> int64 \<Rightarrow> int64 \<Rightarrow> bool" where
  "visits p pos n = (edge p)\<^sup>*\<^sup>* pos n"

text \<open>Some literal on the walk from \<open>pos\<close> is byte-equal to \<open>x\<close>.\<close>

definition literalMatch :: "Proof \<Rightarrow> bytes \<Rightarrow> int64 \<Rightarrow> bool" where
  "literalMatch p x pos =
     (\<exists>l. visits p pos l \<and> 0 \<le>s l \<and> sint l < int (length (Data p)) \<and>
          Data p ! nat (sint l) = x)"

text \<open>
  The type names of the operations on the walk from \<open>pos\<close> whose own walk matches the
  root data or the timestamp.
\<close>

definition walkNames :: "Proof \<Rightarrow> bytes \<Rightarrow> bytes \<Rightarrow> int64 \<Rightarrow> string set" where
  "walkNames p dat tdata pos =
     {oType (Operations p ! nat (sint (- m - 1))) | m.
        visits p pos m \<and> m <s 0 \<and> (literalMatch p dat m \<or> literalMatch p tdata m)}"

text \<open>Every input of every operation resolves against what was produced before it.\<close>

definition operationsOk :: "Proof \<Rightarrow> bool" where
  "operationsOk p =
     (\<forall>k < length (Operations p). \<forall>di \<in> set (oData (Operations p ! k)). inRange p k di)"

section \<open>What Verify checks and what it returns\<close>

text \<open>What an input index of an operation resolves to, given the outputs so far.\<close>

definition resolve :: "Proof \<Rightarrow> bytes list \<Rightarrow> int64 \<Rightarrow> bytes" where
  "resolve p outData di =
     (if di <s 0 then outData ! nat (- sint di - 1) else Data p ! nat (sint di))"

text \<open>The entry of \<open>refData\<close> for a reference.\<close>

definition resolved :: "bytes list \<Rightarrow> Reference \<Rightarrow> VerifiedReference" where
  "resolved outData r =
     \<lparr>vrData = outData ! nat (- sint (rData r) - 1), vrRef = rRef r, vrHashes = []\<rparr>"

text \<open>
  All checks of \<open>Verify\<close> before the walk pass: none of its error returns and no panic
  happens in the checks of the arguments and in the first two loops.
\<close>

definition validated :: "hashlib \<Rightarrow> Proof \<Rightarrow> bytes \<Rightarrow> bool" where
  "validated H p dat =
     (dat \<noteq> [] \<and> Data p \<noteq> [] \<and> firstEmpty 0 (Data p) = None \<and> References p \<noteq> [] \<and>
      (case runOperations H p (Operations p) [] of
         Inl e \<Rightarrow> False
       | Inr outData \<Rightarrow>
           (case resolveReferences p outData (References p) [] of
              Inl e \<Rightarrow> False
            | Inr refData \<Rightarrow> True)))"

text \<open>The same, written as conditions on the document.\<close>

definition wellformed :: "hashlib \<Rightarrow> Proof \<Rightarrow> bytes \<Rightarrow> bool" where
  "wellformed H p dat =
     (dat \<noteq> [] \<and> Data p \<noteq> [] \<and> (\<forall>v \<in> set (Data p). v \<noteq> []) \<and> References p \<noteq> [] \<and>
      (\<forall>k < length (Operations p).
         operations H (oType (Operations p ! k)) \<noteq> None \<and>
         oData (Operations p ! k) \<noteq> [] \<and>
         (\<forall>di \<in> set (oData (Operations p ! k)). inRange p k di)) \<and>
      (\<forall>r \<in> set (References p).
         rRef r \<noteq> [] \<and> rData r <s 0 \<and> inRange p (length (Operations p)) (rData r)))"

text \<open>The outputs of the operations, once they have all run.\<close>

definition outputs :: "hashlib \<Rightarrow> Proof \<Rightarrow> bytes list" where
  "outputs H p = (case runOperations H p (Operations p) [] of Inl e \<Rightarrow> [] | Inr outData \<Rightarrow> outData)"

text \<open>
  A reference is accepted: the walk from its target finds the root data and, when a
  timestamp other than zero is given, also the eight bytes of the timestamp.
\<close>

definition accepted :: "Proof \<Rightarrow> bytes \<Rightarrow> int64 \<Rightarrow> Reference \<Rightarrow> bool" where
  "accepted p dat timestamp r =
     (literalMatch p dat (rData r) \<and>
      (timestamp \<noteq> 0 \<longrightarrow> literalMatch p (PutUint64 timestamp) (rData r)))"

text \<open>The result for an accepted reference.\<close>

definition verified :: "hashlib \<Rightarrow> Proof \<Rightarrow> bytes \<Rightarrow> int64 \<Rightarrow> Reference \<Rightarrow> VerifiedReference" where
  "verified H p dat timestamp r =
     \<lparr>vrData = outputs H p ! nat (- sint (rData r) - 1), vrRef = rRef r,
      vrHashes = sorted_list_of_set (walkNames p dat (timestampData timestamp) (rData r))\<rparr>"

text \<open>What \<open>Verify\<close> returns for a list of accepted references.\<close>

definition answer :: "VerifiedReference list \<Rightarrow> (error + VerifiedReference list) option" where
  "answer refs = (if length refs \<le> 0 then Some (Inl ProvesNothing) else Some (Inr refs))"

text \<open>
  The code tells its errors apart by their message only. The kinds that the
  specification names are read off the messages: a dangling reference is an input of an
  operation that does not resolve, an invalid reference target is a reference that does
  not point at an output.
\<close>

definition isDanglingReference :: "error \<Rightarrow> bool" where
  "isDanglingReference e =
     (case e of OutputNotYetCalculated di \<Rightarrow> True | UndefinedDataElement di \<Rightarrow> True | _ \<Rightarrow> False)"

definition isInvalidReferenceTarget :: "error \<Rightarrow> bool" where
  "isInvalidReferenceTarget e =
     (case e of ReferenceNotCalculated \<Rightarrow> True | ReferenceNonExisting i \<Rightarrow> True | _ \<Rightarrow> False)"

definition isUnknownOperation :: "error \<Rightarrow> bool" where
  "isUnknownOperation e = (case e of UnknownOperation ty \<Rightarrow> True | _ \<Rightarrow> False)"

section \<open>Documents used as examples\<close>

text \<open>
  The document of \<open>ExampleProof\<close>, for any literal \<open>L\<close>: the first operation hashes the
  literal with \<open>sha3_512\<close>, the second hashes the first output followed by the literal
  with \<open>sha2_256\<close>, and the one reference points at the second output.
\<close>

definition exampleProof :: "bytes \<Rightarrow> Proof" where
  "exampleProof L =
     \<lparr>Operations = [\<lparr>oType = ''sha3_512'', oData = [0]\<rparr>,
                    \<lparr>oType = ''sha2_256'', oData = [- 1, 0]\<rparr>],
      Data = [L],
      References = [\<lparr>rData = - 2, rTimestamp = 0, rRef = ''X''\<rparr>]\<rparr>"

text \<open>The twenty bytes \<open>AQIDBAUGBwgJCgsMDQ4PEBESExQ=\<close> of \<open>ExampleProof\<close>.\<close>

definition exampleData :: bytes where
  "exampleData = [1, 2, 3, 4, 5, 6, 7, 8, 9, 10, 11, 12, 13, 14, 15, 16, 17, 18, 19, 20]"

text \<open>Stand-ins for the two hash functions, to run the model on examples.\<close>

definition toyHashes :: hashlib where
  "toyHashes = \<lparr>Sum256 = (\<lambda>x. [2, of_nat (length x)]), Sum512 = (\<lambda>x. [3, of_nat (length x)])\<rparr>"

text \<open>
  A document with shared ancestors: the second operation takes the output of the first
  twice, the third takes the outputs of the first and of the second and the second
  literal, and a fourth hashes the second literal, which holds the eight bytes of the
  timestamp 9. Three references point at the second, the fourth and the third output.
\<close>

definition diamondProof :: Proof where
  "diamondProof =
     \<lparr>Operations = [\<lparr>oType = ''sha3_512'', oData = [0]\<rparr>,
                    \<lparr>oType = ''sha2_256'', oData = [- 1, - 1]\<rparr>,
                    \<lparr>oType = ''sha2_256'', oData = [- 1, - 2, 1]\<rparr>,
                    \<lparr>oType = ''sha3_512'', oData = [1]\<rparr>],
      Data = [[7], [0, 0, 0, 0, 0, 0, 0, 9]],
      References = [\<lparr>rData = - 2, rTimestamp = 0, rRef = ''A''\<rparr>,
                    \<lparr>rData = - 4, rTimestamp = 0, rRef = ''B''\<rparr>,
                    \<lparr>rData = - 3, rTimestamp = 0, rRef = ''C''\<rparr>]\<rparr>"

text \<open>One operation with an unregistered type and an input that points at no output.\<close>

definition unknownDanglingProof :: Proof where
  "unknownDanglingProof =
     \<lparr>Operations = [\<lparr>oType = ''md5'', oData = [- 1]\<rparr>],
      Data = [[7]],
      References = [\<lparr>rData = - 1, rTimestamp = 0, rRef = ''A''\<rparr>]\<rparr>"

text \<open>
  A registered operation with an input that points at no output, followed by an
  operation with an unregistered type.
\<close>

definition danglingThenUnknownProof :: Proof where
  "danglingThenUnknownProof =
     \<lparr>Operations = [\<lparr>oType = ''sha2_256'', oData = [- 1]\<rparr>, \<lparr>oType = ''md5'', oData = [0]\<rparr>],
      Data = [[7]],
      References = [\<lparr>rData = - 1, rTimestamp = 0, rRef = ''A''\<rparr>]\<rparr>"

text \<open>The second operation reads the first output and then a third output that does not exist.\<close>

definition danglingProof :: Proof where
  "danglingProof =
     \<lparr>Operations = [\<lparr>oType = ''sha2_256'', oData = [0]\<rparr>,
                    \<lparr>oType = ''sha3_512'', oData = [- 1, - 3, 0]\<rparr>],
      Data = [[7]],
      References = [\<lparr>rData = - 1, rTimestamp = 0, rRef = ''A''\<rparr>]\<rparr>"

text \<open>
  The second operation has an unregistered type; its input, the third operation and the
  reference are malformed as well.
\<close>

definition unknownProof :: Proof where
  "unknownProof =
     \<lparr>Operations = [\<lparr>oType = ''sha2_256'', oData = [0]\<rparr>, \<lparr>oType = ''md5'', oData = [- 7]\<rparr>,
                    \<lparr>oType = ''sha1'', oData = []\<rparr>],
      Data = [[7]],
      References = [\<lparr>rData = 5, rTimestamp = 0, rRef = []\<rparr>]\<rparr>"

text \<open>The second reference points at the literal 0.\<close>

definition literalReferenceProof :: Proof where
  "literalReferenceProof =
     \<lparr>Operations = [\<lparr>oType = ''sha2_256'', oData = [0]\<rparr>],
      Data = [[7]],
      References = [\<lparr>rData = - 1, rTimestamp = 0, rRef = ''A''\<rparr>,
                    \<lparr>rData = 0, rTimestamp = 0, rRef = ''B''\<rparr>]\<rparr>"

text \<open>An input index equal to the least 64-bit integer.\<close>

definition minInt64Proof :: Proof where
  "minInt64Proof =
     \<lparr>Operations = [\<lparr>oType = ''sha2_256'', oData = [- 9223372036854775808]\<rparr>],
      Data = [[7]],
      References = [\<lparr>rData = - 1, rTimestamp = 0, rRef = ''A''\<rparr>]\<rparr>"

section \<open>Auxiliary facts\<close>

subsection \<open>Words\<close>

lemma sint_neg_pred: "sint (- pos - 1 :: int64) = - sint pos - 1"
proof -
  have "- pos - 1 = not pos" by (simp add: not_eq_complement)
  moreover have "sint (not pos) = not (sint pos)"
    using sint_ge [of pos] sint_lt [of pos]
    by (simp add: signed_not_eq signed_take_bit_int_eq_self_iff not_int_def)
  ultimately show ?thesis by (simp add: not_int_def)
qed

lemma sless0_iff: "(pos :: int64) <s 0 \<longleftrightarrow> sint pos < 0"
  by (simp add: word_sless_alt)

lemma sle0_iff: "0 \<le>s (pos :: int64) \<longleftrightarrow> 0 \<le> sint pos"
  by (simp add: word_sle_eq)

lemma sle0_not_sless0: "0 \<le>s (pos :: int64) \<longleftrightarrow> \<not> pos <s 0"
  by (simp add: sless0_iff sle0_iff not_less)

lemma sint_int64_bounds: "- (2 ^ 63) \<le> sint (w :: int64)" "sint (w :: int64) < 2 ^ 63"
  using sint_ge [of w] sint_lt [of w] by simp_all

lemma sint_neg_int64:
  "sint (- di :: int64) = (if sint di = - (2 ^ 63) then - (2 ^ 63) else - sint di)"
proof (cases "sint di = - (2 ^ 63)")
  case True
  then have "signed_take_bit 63 (- sint di) = signed_take_bit 63 (2 ^ 63 :: int)" by simp
  also have "\<dots> = - (2 ^ 63)" by (simp add: signed_take_bit_eq_take_bit_minus)
  finally show ?thesis using True by (simp add: sint_word_minus)
next
  case False
  with sint_int64_bounds [of di] have "- (2 ^ 63) \<le> - sint di \<and> - sint di < 2 ^ 63" by simp
  then have "signed_take_bit 63 (- sint di) = - sint di"
    by (simp add: signed_take_bit_int_eq_self_iff)
  with False show ?thesis by (simp add: sint_word_minus)
qed

subsection \<open>Key lists\<close>

lemma set_mapInsert: "set (mapInsert k h) = insert k (set h)"
  by (auto simp: mapInsert_def)

lemma distinct_mapInsert: "distinct h \<Longrightarrow> distinct (mapInsert k h)"
  by (simp add: mapInsert_def)

lemma set_foldl_mapInsert: "set (foldl (\<lambda>m hs. mapInsert hs m) h xs) = set h \<union> set xs"
  by (induction xs arbitrary: h) (simp_all add: set_mapInsert)

lemma distinct_foldl_mapInsert:
  "distinct h \<Longrightarrow> distinct (foldl (\<lambda>m hs. mapInsert hs m) h xs)"
  by (induction xs arbitrary: h) (simp_all add: distinct_mapInsert)

lemma mset_permute: "mset (permute r xs) = mset xs"
proof (induction r xs rule: permute.induct)
  case (1 r)
  then show ?case by simp
next
  case (2 r x xs)
  let ?ys = "x # xs"
  let ?i = "r mod length ?ys"
  have i: "?i < length ?ys" by simp
  have a: "mset ?ys = mset (take ?i ?ys @ ?ys ! ?i # drop (Suc ?i) ?ys)"
    using id_take_nth_drop [OF i] by simp
  have "mset (permute (r div length ?ys) (take ?i ?ys @ drop (Suc ?i) ?ys))
        = mset (take ?i ?ys @ drop (Suc ?i) ?ys)"
    using 2 [OF refl refl] .
  then have "mset (permute r ?ys) = mset (?ys ! ?i # (take ?i ?ys @ drop (Suc ?i) ?ys))"
    by (simp add: Let_def)
  also have "\<dots> = mset ?ys" using a by simp
  finally show ?case .
qed

lemma set_permute: "set (permute r xs) = set xs"
  using mset_permute [of r xs] by (metis set_mset_mset)

lemma distinct_permute: "distinct (permute r xs) = distinct xs"
  using mset_permute [of r xs] by (metis mset_eq_imp_distinct_iff)

lemma permute_nonempty:
  "xs \<noteq> [] \<Longrightarrow>
   permute r xs =
     xs ! (r mod length xs) #
     permute (r div length xs) (take (r mod length xs) xs @ drop (Suc (r mod length xs)) xs)"
  by (cases xs) (simp_all add: Let_def)

text \<open>Every order of the keys is selected by some number.\<close>

lemma permute_any_order: "mset ys = mset xs \<Longrightarrow> \<exists>r. permute r xs = ys"
proof (induction ys arbitrary: xs)
  case Nil
  then show ?case by simp
next
  case (Cons y ys)
  from Cons.prems have "y \<in> set xs" by (metis list.set_intros(1) mset_eq_setD)
  then obtain i where i: "i < length xs" "xs ! i = y" by (auto simp: in_set_conv_nth)
  let ?xs' = "take i xs @ drop (Suc i) xs"
  have "mset xs = mset (take i xs @ xs ! i # drop (Suc i) xs)"
    using id_take_nth_drop [OF i(1)] by simp
  with Cons.prems i(2) have "mset ys = mset ?xs'" by simp
  from Cons.IH [OF this] obtain r' where r': "permute r' ?xs' = ys" by blast
  let ?r = "i + length xs * r'"
  from i(1) have ne: "xs \<noteq> []" and m: "?r mod length xs = i" by auto
  from i(1) have d: "?r div length xs = r'" by (subst div_mult_self2) auto
  have "permute ?r xs = y # ys"
    unfolding permute_nonempty [OF ne] m d using i(2) r' by simp
  then show ?case by blast
qed

lemma sort_distinct_eq: "distinct hs \<Longrightarrow> sort hs = sorted_list_of_set (set hs)"
  by (simp add: sorted_list_of_set_sort_remdups distinct_remdups_id)

subsection \<open>The walk\<close>

lemma visits_refl: "visits p pos pos"
  by (simp add: visits_def)

lemma visits_trans: "visits p a b \<Longrightarrow> visits p b c \<Longrightarrow> visits p a c"
  by (simp add: visits_def)

lemma visits_edge: "edge p a b \<Longrightarrow> visits p b c \<Longrightarrow> visits p a c"
  unfolding visits_def by (rule converse_rtranclp_into_rtranclp)

lemma visits_cases: "visits p a c \<Longrightarrow> c = a \<or> (\<exists>b. edge p a b \<and> visits p b c)"
  unfolding visits_def by (erule converse_rtranclpE) auto

lemma visits_literal: "0 \<le>s pos \<Longrightarrow> visits p pos n \<longleftrightarrow> n = pos"
  using visits_cases [of p pos n] visits_refl [of p pos]
  by (auto simp: edge_def sle0_not_sless0)

lemma visits_operation:
  assumes "pos <s 0" "sint (- pos - 1) < int (length (Operations p))"
  shows "visits p pos x \<longleftrightarrow>
         x = pos \<or> (\<exists>n \<in> set (oData (Operations p ! nat (sint (- pos - 1)))). visits p n x)"
proof
  assume "visits p pos x"
  from visits_cases [OF this] show
    "x = pos \<or> (\<exists>n \<in> set (oData (Operations p ! nat (sint (- pos - 1)))). visits p n x)"
    by (auto simp: edge_def)
next
  assume "x = pos \<or> (\<exists>n \<in> set (oData (Operations p ! nat (sint (- pos - 1)))). visits p n x)"
  then show "visits p pos x"
  proof
    assume "x = pos" then show ?thesis by (simp add: visits_refl)
  next
    assume "\<exists>n \<in> set (oData (Operations p ! nat (sint (- pos - 1)))). visits p n x"
    then obtain n where n: "n \<in> set (oData (Operations p ! nat (sint (- pos - 1))))" "visits p n x"
      by blast
    from assms n(1) have "edge p pos n" by (simp add: edge_def)
    then show ?thesis using n(2) by (rule visits_edge)
  qed
qed

lemma literalMatch_visits: "visits p a b \<Longrightarrow> literalMatch p x b \<Longrightarrow> literalMatch p x a"
  unfolding literalMatch_def by (blast intro: visits_trans)

lemma literalMatch_literal:
  "0 \<le>s pos \<Longrightarrow> sint pos < int (length (Data p)) \<Longrightarrow>
   literalMatch p x pos \<longleftrightarrow> Data p ! nat (sint pos) = x"
  by (auto simp: literalMatch_def visits_literal)

lemma literalMatch_operation:
  assumes "pos <s 0" "sint (- pos - 1) < int (length (Operations p))"
  shows "literalMatch p x pos \<longleftrightarrow>
         (\<exists>n \<in> set (oData (Operations p ! nat (sint (- pos - 1)))). literalMatch p x n)"
  using assms(1) unfolding literalMatch_def visits_operation [OF assms]
  by (auto simp: sle0_not_sless0)

lemma walkNames_literal: "0 \<le>s pos \<Longrightarrow> walkNames p dat tdata pos = {}"
  by (auto simp: walkNames_def visits_literal sle0_not_sless0)

lemma walkNames_operation:
  assumes "pos <s 0" "sint (- pos - 1) < int (length (Operations p))"
  shows "walkNames p dat tdata pos =
         (\<Union>n \<in> {n \<in> set (oData (Operations p ! nat (sint (- pos - 1)))).
                   literalMatch p dat n \<or> literalMatch p tdata n}.
            insert (oType (Operations p ! nat (sint (- pos - 1)))) (walkNames p dat tdata n))"
    (is "?L = ?R")
proof (intro equalityI subsetI)
  fix s assume "s \<in> ?L"
  then obtain m where m: "s = oType (Operations p ! nat (sint (- m - 1)))"
      "visits p pos m" "m <s 0" "literalMatch p dat m \<or> literalMatch p tdata m"
    by (auto simp: walkNames_def)
  from m(2) consider "m = pos"
    | n where "n \<in> set (oData (Operations p ! nat (sint (- pos - 1))))" "visits p n m"
    unfolding visits_operation [OF assms] by blast
  then show "s \<in> ?R"
  proof cases
    case 1
    with m(4) have "literalMatch p dat pos \<or> literalMatch p tdata pos" by simp
    then obtain n where "n \<in> set (oData (Operations p ! nat (sint (- pos - 1))))"
        "literalMatch p dat n \<or> literalMatch p tdata n"
      unfolding literalMatch_operation [OF assms] by blast
    with 1 m(1) show ?thesis by blast
  next
    case 2
    from 2(2) m(4) have "literalMatch p dat n \<or> literalMatch p tdata n"
      by (blast intro: literalMatch_visits)
    moreover from 2(2) m have "s \<in> walkNames p dat tdata n"
      by (auto simp: walkNames_def)
    ultimately show ?thesis using 2(1) by blast
  qed
next
  fix s assume "s \<in> ?R"
  then obtain n where n: "n \<in> set (oData (Operations p ! nat (sint (- pos - 1))))"
      "literalMatch p dat n \<or> literalMatch p tdata n"
      "s = oType (Operations p ! nat (sint (- pos - 1))) \<or> s \<in> walkNames p dat tdata n"
    by blast
  from n(3) show "s \<in> ?L"
  proof
    assume s: "s = oType (Operations p ! nat (sint (- pos - 1)))"
    from n(1,2) have "literalMatch p dat pos \<or> literalMatch p tdata pos"
      unfolding literalMatch_operation [OF assms] by blast
    with s assms(1) show ?thesis
      unfolding walkNames_def using visits_refl [of p pos] by blast
  next
    assume "s \<in> walkNames p dat tdata n"
    then obtain m where m: "s = oType (Operations p ! nat (sint (- m - 1)))"
      "visits p n m" "m <s 0" "literalMatch p dat m \<or> literalMatch p tdata m"
      by (auto simp: walkNames_def)
    from n(1) m(2) have "visits p pos m"
      unfolding visits_operation [OF assms] by blast
    with m show ?thesis unfolding walkNames_def by blast
  qed
qed

subsection \<open>recData computes the walk\<close>

lemma recLoop_spec:
  assumes "\<And>n c. n \<in> set ns \<Longrightarrow>
             \<exists>hs c'. rec n c = Some (Inr ((A n, B n, hs), c')) \<and> set hs = N n \<and> distinct hs"
    and "distinct h"
  shows "\<exists>h' c'. recLoop rec ty ns (o1, o2, h) c =
            Some (Inr ((o1 \<or> (\<exists>n \<in> set ns. A n), o2 \<or> (\<exists>n \<in> set ns. B n), h'), c')) \<and>
          set h' = set h \<union> (\<Union>n \<in> {n \<in> set ns. A n \<or> B n}. insert ty (N n)) \<and>
          distinct h'"
  using assms
proof (induction ns arbitrary: o1 o2 h c)
  case Nil
  then show ?case by simp
next
  case (Cons n ns)
  from Cons.prems(1) [of n c] obtain hs c1 where
    r: "rec n c = Some (Inr ((A n, B n, hs), c1))" and hs: "set hs = N n" "distinct hs"
    by auto
  have rest: "\<And>m c. m \<in> set ns \<Longrightarrow>
      \<exists>hs c'. rec m c = Some (Inr ((A m, B m, hs), c')) \<and> set hs = N m \<and> distinct hs"
    using Cons.prems(1) by simp
  show ?case
  proof (cases "A n \<or> B n")
    case False
    from Cons.IH [OF rest Cons.prems(2), of o1 o2 c1] obtain h' c' where
      "recLoop rec ty ns (o1, o2, h) c1 =
         Some (Inr ((o1 \<or> (\<exists>n \<in> set ns. A n), o2 \<or> (\<exists>n \<in> set ns. B n), h'), c'))"
      "set h' = set h \<union> (\<Union>n \<in> {n \<in> set ns. A n \<or> B n}. insert ty (N n))" "distinct h'"
      by blast
    with False r show ?thesis by auto
  next
    case True
    let ?hs' = "if ty \<in> set hs then hs else hs @ [ty]"
    let ?h1 = "foldl (\<lambda>m hs. mapInsert hs m) h ?hs'"
    have d: "distinct ?h1" using Cons.prems(2) by (rule distinct_foldl_mapInsert)
    have s1: "set ?h1 = set h \<union> insert ty (N n)"
      using hs(1) by (auto simp: set_foldl_mapInsert)
    from Cons.IH [OF rest d, of "o1 \<or> A n" "o2 \<or> B n" c1] obtain h' c' where
      l: "recLoop rec ty ns (o1 \<or> A n, o2 \<or> B n, ?h1) c1 =
         Some (Inr (((o1 \<or> A n) \<or> (\<exists>n \<in> set ns. A n), (o2 \<or> B n) \<or> (\<exists>n \<in> set ns. B n), h'), c'))"
      and s: "set h' = set ?h1 \<union> (\<Union>n \<in> {n \<in> set ns. A n \<or> B n}. insert ty (N n))"
      and d': "distinct h'"
      by blast
    have e: "recLoop rec ty (n # ns) (o1, o2, h) c =
          recLoop rec ty ns (o1 \<or> A n, o2 \<or> B n, ?h1) c1"
      using r True by (simp add: Let_def)
    have a: "((o1 \<or> A n) \<or> (\<exists>n \<in> set ns. A n)) = (o1 \<or> (\<exists>m \<in> set (n # ns). A m))"
      by auto
    have b: "((o2 \<or> B n) \<or> (\<exists>n \<in> set ns. B n)) = (o2 \<or> (\<exists>m \<in> set (n # ns). B m))"
      by auto
    have u: "set h' = set h \<union> (\<Union>m \<in> {m \<in> set (n # ns). A m \<or> B m}. insert ty (N m))"
      using s s1 True by auto
    from l have "recLoop rec ty (n # ns) (o1, o2, h) c =
        Some (Inr ((o1 \<or> (\<exists>m \<in> set (n # ns). A m), o2 \<or> (\<exists>m \<in> set (n # ns). B m), h'), c'))"
      unfolding e a b .
    with u d' show ?thesis by blast
  qed
qed

lemma inRange_mono: "inRange p k pos \<Longrightarrow> k \<le> k' \<Longrightarrow> inRange p k' pos"
  by (auto simp: inRange_def split: if_splits)

lemma recData_spec:
  assumes ok: "operationsOk p"
  shows "inRange p (length (Operations p)) pos \<Longrightarrow> nat (- sint pos) < fuel \<Longrightarrow>
         \<exists>hs c'. recData fuel tape p dat tdata pos c =
                   Some (Inr ((literalMatch p dat pos, literalMatch p tdata pos, hs), c')) \<and>
                 set hs = walkNames p dat tdata pos \<and> distinct hs"
proof (induction fuel arbitrary: pos c)
  case 0
  then show ?case by simp
next
  case (Suc fuel)
  show ?case
  proof (cases "0 \<le>s pos")
    case True
    with Suc.prems(1) have lt: "sint pos < int (length (Data p))"
      by (simp add: inRange_def sle0_not_sless0)
    show ?thesis
      using True lt
      by (simp add: literalMatch_literal walkNames_literal eq_commute)
  next
    case False
    then have neg: "pos <s 0" by (simp add: sle0_not_sless0)
    then have sneg: "sint pos < 0" by (simp add: sless0_iff)
    let ?i = "sint (- pos - 1)"
    have i: "?i = - sint pos - 1" by (rule sint_neg_pred)
    from Suc.prems(1) neg have le: "- sint pos \<le> int (length (Operations p))"
      by (simp add: inRange_def)
    have i0: "0 \<le> ?i" and ilt: "?i < int (length (Operations p))"
      using i sneg le by simp_all
    let ?op = "Operations p ! nat ?i"
    have nlt: "nat ?i < length (Operations p)" using i0 ilt by simp
    have child: "\<exists>hs c'. recData fuel tape p dat tdata n c =
                   Some (Inr ((literalMatch p dat n, literalMatch p tdata n, hs), c')) \<and>
                 set hs = walkNames p dat tdata n \<and> distinct hs"
      if n: "n \<in> set (oData ?op)" for n c
    proof (rule Suc.IH)
      from ok nlt n have r: "inRange p (nat ?i) n" by (simp add: operationsOk_def)
      then show "inRange p (length (Operations p)) n"
        using nlt by (auto intro: inRange_mono)
      from r i i0 Suc.prems(2) sneg show "nat (- sint n) < fuel"
        by (auto simp: inRange_def sless0_iff split: if_splits)
    qed
    from recLoop_spec [of "oData ?op" "\<lambda>nPos c'. recData fuel tape p dat tdata nPos c'"
        "literalMatch p dat" "literalMatch p tdata" "walkNames p dat tdata" "[]"
        "oType ?op" False False c, OF child]
    obtain h' c' where
      l: "recLoop (\<lambda>nPos c'. recData fuel tape p dat tdata nPos c') (oType ?op) (oData ?op)
            (False, False, []) c =
          Some (Inr ((\<exists>n \<in> set (oData ?op). literalMatch p dat n,
                      \<exists>n \<in> set (oData ?op). literalMatch p tdata n, h'), c'))"
      and s: "set h' = (\<Union>n \<in> {n \<in> set (oData ?op). literalMatch p dat n \<or> literalMatch p tdata n}.
                  insert (oType ?op) (walkNames p dat tdata n))"
      and d: "distinct h'"
      by auto
    have "recData (Suc fuel) tape p dat tdata pos c =
          Some (Inr ((\<exists>n \<in> set (oData ?op). literalMatch p dat n,
                      \<exists>n \<in> set (oData ?op). literalMatch p tdata n, permute (tape c') h'), Suc c'))"
      using False i0 ilt l by (simp add: Let_def)
    then show ?thesis
      using s d
      by (simp add: literalMatch_operation [OF neg ilt] walkNames_operation [OF neg ilt]
          set_permute distinct_permute)
  qed
qed

subsection \<open>The loop over the inputs of an operation\<close>

lemma negative_step:
  assumes "di <s 0"
  shows "(int k < sint (- di) \<or> \<not> (0 \<le> sint (- di - 1) \<and> sint (- di - 1) < int k))
         \<longleftrightarrow> \<not> inRange p k di"
    and "int k < sint (- di) \<longleftrightarrow> \<not> inRange p k di \<and> sint di \<noteq> - (2 ^ 63)"
  using assms sint_int64_bounds [of di]
  by (auto simp: inRange_def sint_neg_pred sint_neg_int64 sless0_iff split: if_splits)

lemma resolve_negative: "di <s 0 \<Longrightarrow> resolve p outData di = outData ! nat (sint (- di - 1))"
  by (simp add: resolve_def sint_neg_pred)

lemma operationInput_ok:
  "\<forall>di \<in> set ds. inRange p (length outData) di \<Longrightarrow>
   operationInput p outData ds inBuf = Inr (inBuf @ concat (map (resolve p outData) ds))"
proof (induction ds arbitrary: inBuf)
  case Nil
  then show ?case by simp
next
  case (Cons di ds)
  then have r: "inRange p (length outData) di" by simp
  show ?case
  proof (cases "di <s 0")
    case True
    from negative_step(1) [OF True, of "length outData" p] r
    have "\<not> int (length outData) < sint (- di)"
      "0 \<le> sint (- di - 1) \<and> sint (- di - 1) < int (length outData)" by auto
    with True Cons show ?thesis by (simp add: resolve_negative)
  next
    case False
    with r have "sint di < int (length (Data p))" by (simp add: inRange_def)
    with False Cons show ?thesis by (simp add: resolve_def)
  qed
qed

lemma operationInput_Inr:
  "operationInput p outData ds inBuf = Inr buf \<Longrightarrow> \<forall>di \<in> set ds. inRange p (length outData) di"
proof (induction ds arbitrary: inBuf)
  case Nil
  then show ?case by simp
next
  case (Cons di ds)
  show ?case
  proof (cases "di <s 0")
    case True
    from Cons.prems True have
      a: "\<not> int (length outData) < sint (- di)"
        "0 \<le> sint (- di - 1) \<and> sint (- di - 1) < int (length outData)"
      and b: "operationInput p outData ds (inBuf @ outData ! nat (sint (- di - 1))) = Inr buf"
      by (auto simp: Let_def split: if_splits)
    from a negative_step(1) [OF True, of "length outData" p]
    have "inRange p (length outData) di" by auto
    with Cons.IH [OF b] show ?thesis by simp
  next
    case False
    from Cons.prems False have a: "sint di < int (length (Data p))"
      and b: "operationInput p outData ds (inBuf @ Data p ! nat (sint di)) = Inr buf"
      by (auto split: if_splits)
    from a False have "inRange p (length outData) di" by (simp add: inRange_def)
    with Cons.IH [OF b] show ?thesis by simp
  qed
qed

lemma operationInput_append:
  "operationInput p outData (ds @ es) inBuf =
     (case operationInput p outData ds inBuf of
        Inl e \<Rightarrow> Inl e
      | Inr buf \<Rightarrow> operationInput p outData es buf)"
  by (induction ds arbitrary: inBuf) (simp_all add: Let_def)

lemma operationInput_dangling:
  assumes "\<forall>d \<in> set ds. inRange p (length outData) d"
    and "\<not> inRange p (length outData) di" and "sint di \<noteq> - (2 ^ 63)"
  shows "operationInput p outData (ds @ di # es) inBuf =
         Inl (if di <s 0 then OutputNotYetCalculated di else UndefinedDataElement di)"
proof -
  have "operationInput p outData (di # es) buf =
        Inl (if di <s 0 then OutputNotYetCalculated di else UndefinedDataElement di)" for buf
  proof (cases "di <s 0")
    case True
    with negative_step(2) [OF True, of "length outData" p] assms(2,3) show ?thesis by simp
  next
    case False
    with assms(2) show ?thesis by (simp add: inRange_def)
  qed
  then show ?thesis
    by (simp only: operationInput_append operationInput_ok [OF assms(1)] sum.case)
qed

subsection \<open>The loop over the operations\<close>

lemma runOperations_append:
  "runOperations H p (xs @ ys) outData =
     (case runOperations H p xs outData of
        Inl e \<Rightarrow> Inl e
      | Inr out \<Rightarrow> runOperations H p ys out)"
  by (induction xs arbitrary: outData) (simp_all split: option.splits sum.splits)

lemma runOperations_Inr:
  "runOperations H p ops outData = Inr out \<Longrightarrow>
   length out = length outData + length ops \<and>
   (\<forall>j < length ops.
      operations H (oType (ops ! j)) \<noteq> None \<and> oData (ops ! j) \<noteq> [] \<and>
      (\<forall>di \<in> set (oData (ops ! j)). inRange p (length outData + j) di))"
proof (induction ops arbitrary: outData)
  case Nil
  then show ?case by simp
next
  case (Cons a ops)
  from Cons.prems obtain f buf where
    f: "operations H (oType a) = Some f" and ne: "oData a \<noteq> []"
    and inp: "operationInput p outData (oData a) [] = Inr buf"
    and rest: "runOperations H p ops (outData @ [f buf]) = Inr out"
    by (auto split: option.splits if_splits sum.splits)
  from Cons.IH [OF rest] have
    len: "length out = length outData + length (a # ops)"
    and ih: "\<forall>j < length ops.
      operations H (oType (ops ! j)) \<noteq> None \<and> oData (ops ! j) \<noteq> [] \<and>
      (\<forall>di \<in> set (oData (ops ! j)). inRange p (Suc (length outData + j)) di)"
    by simp_all
  have "operations H (oType ((a # ops) ! j)) \<noteq> None \<and> oData ((a # ops) ! j) \<noteq> [] \<and>
      (\<forall>di \<in> set (oData ((a # ops) ! j)). inRange p (length outData + j) di)"
    if "j < length (a # ops)" for j
  proof (cases j)
    case 0
    with f ne operationInput_Inr [OF inp] show ?thesis by simp
  next
    case (Suc j')
    with that ih show ?thesis by simp
  qed
  with len show ?case by blast
qed

lemma runOperations_ok:
  "(\<forall>j < length ops.
      operations H (oType (ops ! j)) \<noteq> None \<and> oData (ops ! j) \<noteq> [] \<and>
      (\<forall>di \<in> set (oData (ops ! j)). inRange p (length outData + j) di)) \<Longrightarrow>
   \<exists>out. runOperations H p ops outData = Inr out"
proof (induction ops arbitrary: outData)
  case Nil
  then show ?case by simp
next
  case (Cons a ops)
  from Cons.prems [rule_format, of 0] obtain f where
    f: "operations H (oType a) = Some f" and ne: "oData a \<noteq> []"
    and r: "\<forall>di \<in> set (oData a). inRange p (length outData) di"
    by auto
  have "\<forall>j < length ops.
      operations H (oType (ops ! j)) \<noteq> None \<and> oData (ops ! j) \<noteq> [] \<and>
      (\<forall>di \<in> set (oData (ops ! j)). inRange p (length (outData @ [x]) + j) di)" for x
    using Cons.prems [rule_format, of "Suc j" for j] by simp
  from Cons.IH [OF this] f ne operationInput_ok [OF r]
  show ?case by simp
qed

subsection \<open>The first loop over the references\<close>

lemma resolveReferences_Inr:
  "resolveReferences p outData rs acc = Inr refData \<Longrightarrow>
   refData = acc @ map (resolved outData) rs \<and>
   (\<forall>r \<in> set rs. rRef r \<noteq> [] \<and> rData r <s 0 \<and> inRange p (length outData) (rData r))"
proof (induction rs arbitrary: acc)
  case Nil
  then show ?case by simp
next
  case (Cons r rs)
  from Cons.prems have ne: "rRef r \<noteq> []" and neg: "rData r <s 0"
    by (auto split: if_splits)
  from Cons.prems ne neg have
    a: "sint (- rData r) \<le> int (length outData)"
       "0 \<le> sint (- rData r - 1) \<and> sint (- rData r - 1) < int (length outData)"
    and b: "resolveReferences p outData rs
              (acc @ [\<lparr>vrData = outData ! nat (sint (- rData r - 1)), vrRef = rRef r,
                       vrHashes = []\<rparr>]) = Inr refData"
    by (auto simp: Let_def split: if_splits)
  from a negative_step(1) [OF neg, of "length outData" p]
  have "inRange p (length outData) (rData r)" by auto
  with Cons.IH [OF b] ne neg show ?case
    by (simp add: resolved_def sint_neg_pred)
qed

lemma resolveReferences_ok:
  "\<forall>r \<in> set rs. rRef r \<noteq> [] \<and> rData r <s 0 \<and> inRange p (length outData) (rData r) \<Longrightarrow>
   resolveReferences p outData rs acc = Inr (acc @ map (resolved outData) rs)"
proof (induction rs arbitrary: acc)
  case Nil
  then show ?case by simp
next
  case (Cons r rs)
  then have ne: "rRef r \<noteq> []" and neg: "rData r <s 0"
    and r: "inRange p (length outData) (rData r)" by simp_all
  from negative_step(1) [OF neg, of "length outData" p] r
  have "sint (- rData r) \<le> int (length outData)"
    "0 \<le> sint (- rData r - 1) \<and> sint (- rData r - 1) < int (length outData)" by auto
  with ne neg Cons show ?case by (simp add: resolved_def sint_neg_pred)
qed

lemma firstEmpty_None: "firstEmpty i vs = None \<longleftrightarrow> (\<forall>v \<in> set vs. v \<noteq> [])"
  by (induction vs arbitrary: i) auto

subsection \<open>Validation\<close>

lemma validated_iff: "validated H p dat \<longleftrightarrow> wellformed H p dat"
proof
  assume v: "validated H p dat"
  then obtain outData refData where
    run: "runOperations H p (Operations p) [] = Inr outData"
    and res: "resolveReferences p outData (References p) [] = Inr refData"
    by (auto simp: validated_def split: sum.splits)
  from runOperations_Inr [OF run] resolveReferences_Inr [OF res] v
  show "wellformed H p dat"
    by (simp add: validated_def wellformed_def firstEmpty_None)
next
  assume w: "wellformed H p dat"
  then have "\<forall>j < length (Operations p).
      operations H (oType (Operations p ! j)) \<noteq> None \<and> oData (Operations p ! j) \<noteq> [] \<and>
      (\<forall>di \<in> set (oData (Operations p ! j)). inRange p (length ([] :: bytes list) + j) di)"
    by (simp add: wellformed_def)
  from runOperations_ok [OF this] obtain out where
    run: "runOperations H p (Operations p) [] = Inr out" by blast
  from runOperations_Inr [OF run] have "length out = length (Operations p)" by simp
  with w have "\<forall>r \<in> set (References p).
      rRef r \<noteq> [] \<and> rData r <s 0 \<and> inRange p (length out) (rData r)"
    by (simp add: wellformed_def)
  from resolveReferences_ok [OF this, of "[]"] run w
  show "validated H p dat"
    by (simp add: validated_def wellformed_def firstEmpty_None)
qed

lemma wellformed_operationsOk: "wellformed H p dat \<Longrightarrow> operationsOk p"
  by (simp add: wellformed_def operationsOk_def)

subsection \<open>The second loop over the references\<close>

lemma length_PutUint64: "length (PutUint64 v) = 8"
  by (simp add: PutUint64_def)

lemma timestampData_Nil: "timestampData timestamp = [] \<longleftrightarrow> timestamp = 0"
  using length_PutUint64 [of timestamp] by (auto simp: timestampData_def)

lemma accepted_alt:
  "accepted p dat timestamp r \<longleftrightarrow>
   literalMatch p dat (rData r) \<and>
   (timestampData timestamp = [] \<or> literalMatch p (timestampData timestamp) (rData r))"
proof -
  have "PutUint64 timestamp \<noteq> []" using length_PutUint64 [of timestamp] by auto
  then show ?thesis by (auto simp: accepted_def timestampData_def)
qed

lemma trustLoop_spec:
  assumes ok: "operationsOk p" and fuel: "length (Operations p) < fuel"
  shows "\<forall>r \<in> set rs. rData r <s 0 \<and> inRange p (length (Operations p)) (rData r) \<Longrightarrow>
   trustLoop fuel tape p dat tdata (zip rs (map (resolved outData) rs)) refs c =
   Some (Inr (refs @
     map (\<lambda>r. (resolved outData r)\<lparr>vrHashes := sorted_list_of_set (walkNames p dat tdata (rData r))\<rparr>)
       (filter (\<lambda>r. literalMatch p dat (rData r) \<and>
                     (tdata = [] \<or> literalMatch p tdata (rData r))) rs)))"
proof (induction rs arbitrary: refs c)
  case Nil
  then show ?case by simp
next
  case (Cons r rs)
  then have neg: "rData r <s 0" and rng: "inRange p (length (Operations p)) (rData r)"
    by simp_all
  from neg rng fuel have "nat (- sint (rData r)) < fuel"
    by (simp add: inRange_def)
  from recData_spec [OF ok rng this, of tape dat tdata c] obtain hs c' where
    rec: "recData fuel tape p dat tdata (rData r) c =
            Some (Inr ((literalMatch p dat (rData r), literalMatch p tdata (rData r), hs), c'))"
    and hs: "set hs = walkNames p dat tdata (rData r)" "distinct hs"
    by blast
  have srt: "sort hs = sorted_list_of_set (walkNames p dat tdata (rData r))"
    using sort_distinct_eq [OF hs(2)] hs(1) by simp
  have rest: "\<forall>r \<in> set rs. rData r <s 0 \<and> inRange p (length (Operations p)) (rData r)"
    using Cons.prems by simp
  show ?case
    using rec srt Cons.IH [OF rest] by simp
qed

subsection \<open>Verify on a document that passes the checks\<close>

lemma Verify_validated:
  assumes v: "validated H p dat" and fuel: "length (Operations p) < fuel"
  shows "Verify H fuel tape c p dat timestamp =
         answer (map (verified H p dat timestamp) (filter (accepted p dat timestamp) (References p)))"
proof -
  from v obtain outData refData where
    run: "runOperations H p (Operations p) [] = Inr outData"
    and res: "resolveReferences p outData (References p) [] = Inr refData"
    by (auto simp: validated_def split: sum.splits)
  from run have out: "outputs H p = outData" by (simp add: outputs_def)
  from runOperations_Inr [OF run] have len: "length outData = length (Operations p)" by simp
  from resolveReferences_Inr [OF res] len have
    rd: "refData = map (resolved outData) (References p)"
    and refs: "\<forall>r \<in> set (References p).
                rData r <s 0 \<and> inRange p (length (Operations p)) (rData r)"
    by simp_all
  from v have w: "wellformed H p dat" by (simp add: validated_iff)
  then have ok: "operationsOk p" by (rule wellformed_operationsOk)
  have m: "map (\<lambda>r. (resolved outData r)\<lparr>vrHashes :=
              sorted_list_of_set (walkNames p dat (timestampData timestamp) (rData r))\<rparr>) rs
           = map (verified H p dat timestamp) rs" for rs
    by (simp add: resolved_def verified_def out)
  have f: "filter (\<lambda>r. literalMatch p dat (rData r) \<and>
              (timestampData timestamp = [] \<or>
               literalMatch p (timestampData timestamp) (rData r))) rs
           = filter (accepted p dat timestamp) rs" for rs
    by (rule filter_cong) (simp_all add: accepted_alt)
  have t: "trustLoop fuel tape p dat (timestampData timestamp) (zip (References p) refData) [] c =
       Some (Inr (map (verified H p dat timestamp)
                    (filter (accepted p dat timestamp) (References p))))"
    using trustLoop_spec [OF ok fuel refs, of tape dat "timestampData timestamp" outData "[]" c]
    unfolding rd m f by simp
  from v have pre: "\<not> length dat \<le> 0" "\<not> length (Data p) \<le> 0"
    "firstEmpty 0 (Data p) = None" "\<not> length (References p) \<le> 0"
    by (simp_all add: validated_def)
  show ?thesis
    unfolding Verify_def using pre run res t by (simp add: answer_def)
qed

lemma Verify_not_validated:
  assumes "\<not> validated H p dat"
  shows "\<exists>e. \<forall>fuel tape c. Verify H fuel tape c p dat timestamp = Some (Inl e)"
proof -
  consider (a) "dat = []"
    | (b) "dat \<noteq> []" "Data p = []"
    | (c) i where "dat \<noteq> []" "Data p \<noteq> []" "firstEmpty 0 (Data p) = Some i"
    | (d) "dat \<noteq> []" "Data p \<noteq> []" "firstEmpty 0 (Data p) = None" "References p = []"
    | (e) e where "dat \<noteq> []" "Data p \<noteq> []" "firstEmpty 0 (Data p) = None"
        "References p \<noteq> []" "runOperations H p (Operations p) [] = Inl e"
    | (f) e outData where "dat \<noteq> []" "Data p \<noteq> []" "firstEmpty 0 (Data p) = None"
        "References p \<noteq> []" "runOperations H p (Operations p) [] = Inr outData"
        "resolveReferences p outData (References p) [] = Inl e"
    using assms unfolding validated_def
    by (cases "firstEmpty 0 (Data p)"; cases "runOperations H p (Operations p) []";
        cases "resolveReferences p (projr (runOperations H p (Operations p) [])) (References p) []")
       auto
  then show ?thesis
  proof cases
    case a then show ?thesis by (simp add: Verify_def)
  next
    case b then show ?thesis by (simp add: Verify_def)
  next
    case c then show ?thesis by (simp add: Verify_def)
  next
    case d then show ?thesis by (simp add: Verify_def)
  next
    case e then show ?thesis by (simp add: Verify_def)
  next
    case f then show ?thesis by (simp add: Verify_def)
  qed
qed

subsection \<open>More fuel changes nothing\<close>

lemma recLoop_mono:
  assumes "recLoop rec ty ns acc c = Some r"
    and "\<And>n c r. n \<in> set ns \<Longrightarrow> rec n c = Some r \<Longrightarrow> rec' n c = Some r"
  shows "recLoop rec' ty ns acc c = Some r"
  using assms
proof (induction ns arbitrary: acc c)
  case Nil
  then show ?case by simp
next
  case (Cons n ns)
  obtain o1 o2 h where acc: "acc = (o1, o2, h)" by (cases acc)
  from Cons.prems(1) obtain x where x: "rec n c = Some x"
    unfolding acc by (auto split: option.splits)
  then have x': "rec' n c = Some x" using Cons.prems(2) by simp
  have rest: "\<And>m c r. m \<in> set ns \<Longrightarrow> rec m c = Some r \<Longrightarrow> rec' m c = Some r"
    using Cons.prems(2) by simp
  show ?case
  proof (cases x)
    case (Inl e)
    with x x' Cons.prems(1) show ?thesis unfolding acc by auto
  next
    case (Inr y)
    obtain okd okt hashes c' where y: "y = ((okd, okt, hashes), c')"
      by (metis prod.exhaust)
    show ?thesis
    proof (cases "okd \<or> okt")
      case True
      with Cons.prems(1) x have "recLoop rec ty ns (o1 \<or> okd, o2 \<or> okt,
          foldl (\<lambda>m hs. mapInsert hs m) h (if ty \<in> set hashes then hashes else hashes @ [ty])) c'
          = Some r"
        unfolding acc Inr y by (simp add: Let_def)
      from Cons.IH [OF this rest] True x' show ?thesis
        unfolding acc Inr y by (simp add: Let_def)
    next
      case False
      with Cons.prems(1) x have "recLoop rec ty ns (o1, o2, h) c' = Some r"
        unfolding acc Inr y by simp
      from Cons.IH [OF this rest] False x' show ?thesis
        unfolding acc Inr y by simp
    qed
  qed
qed

lemma recData_mono:
  "recData fuel tape p dat tdata pos c = Some r \<Longrightarrow> fuel \<le> fuel' \<Longrightarrow>
   recData fuel' tape p dat tdata pos c = Some r"
proof (induction fuel arbitrary: fuel' pos c r)
  case 0
  then show ?case by simp
next
  case (Suc fuel)
  from Suc.prems(2) obtain g where g: "fuel' = Suc g" "fuel \<le> g"
    by (cases fuel') auto
  show ?case
  proof (cases "0 \<le>s pos \<or> \<not> (0 \<le> sint (- pos - 1) \<and> sint (- pos - 1) < int (length (Operations p)))")
    case True
    with Suc.prems(1) show ?thesis unfolding g by (auto simp: Let_def split: if_splits)
  next
    case False
    let ?op = "Operations p ! nat (sint (- pos - 1))"
    from Suc.prems(1) False obtain x where
      x: "recLoop (\<lambda>nPos c'. recData fuel tape p dat tdata nPos c') (oType ?op) (oData ?op)
            (False, False, []) c = Some x"
      by (auto simp: Let_def split: option.splits)
    have "recLoop (\<lambda>nPos c'. recData g tape p dat tdata nPos c') (oType ?op) (oData ?op)
            (False, False, []) c = Some x"
      by (rule recLoop_mono [OF x]) (rule Suc.IH [OF _ g(2)])
    with x Suc.prems(1) False show ?thesis unfolding g by (simp add: Let_def)
  qed
qed

lemma trustLoop_mono:
  "trustLoop fuel tape p dat tdata zs refs c = Some r \<Longrightarrow> fuel \<le> fuel' \<Longrightarrow>
   trustLoop fuel' tape p dat tdata zs refs c = Some r"
proof (induction zs arbitrary: refs c)
  case Nil
  then show ?case by simp
next
  case (Cons z zs)
  obtain rf rd where z: "z = (rf, rd)" by (cases z)
  from Cons.prems(1) obtain x where x: "recData fuel tape p dat tdata (rData rf) c = Some x"
    unfolding z by (auto split: option.splits)
  from recData_mono [OF x Cons.prems(2)]
  have x': "recData fuel' tape p dat tdata (rData rf) c = Some x" .
  show ?case
  proof (cases x)
    case (Inl e)
    with x x' Cons.prems(1) show ?thesis unfolding z by simp
  next
    case (Inr y)
    obtain ok1 ok2 hashes c' where y: "y = ((ok1, ok2, hashes), c')"
      by (metis prod.exhaust)
    show ?thesis
    proof (cases "ok1 \<and> (tdata = [] \<or> ok2)")
      case True
      with Cons.prems(1) x have
        "trustLoop fuel tape p dat tdata zs (refs @ [rd\<lparr>vrHashes := sort hashes\<rparr>]) c' = Some r"
        unfolding z Inr y by auto
      from Cons.IH [OF this Cons.prems(2)] True x' show ?thesis
        unfolding z Inr y by auto
    next
      case False
      with Cons.prems(1) x have "trustLoop fuel tape p dat tdata zs refs c' = Some r"
        unfolding z Inr y by auto
      from Cons.IH [OF this Cons.prems(2)] False x' show ?thesis
        unfolding z Inr y by auto
    qed
  qed
qed

lemma Verify_mono:
  assumes "Verify H fuel tape c p dat timestamp = Some r" and "fuel \<le> fuel'"
  shows "Verify H fuel' tape c p dat timestamp = Some r"
proof (cases "validated H p dat")
  case False
  from Verify_not_validated [OF this, of timestamp] assms(1) show ?thesis by auto
next
  case True
  then obtain outData refData where
    run: "runOperations H p (Operations p) [] = Inr outData"
    and res: "resolveReferences p outData (References p) [] = Inr refData"
    by (auto simp: validated_def split: sum.splits)
  from True have pre: "\<not> length dat \<le> 0" "\<not> length (Data p) \<le> 0"
    "firstEmpty 0 (Data p) = None" "\<not> length (References p) \<le> 0"
    by (simp_all add: validated_def)
  from assms(1) obtain x where
    x: "trustLoop fuel tape p dat (timestampData timestamp) (zip (References p) refData) [] c = Some x"
    unfolding Verify_def using pre run res by (auto split: option.splits)
  from trustLoop_mono [OF x assms(2)] x assms(1) show ?thesis
    unfolding Verify_def using pre run res by simp
qed

lemma Verify_Some:
  assumes "Verify H fuel tape c p dat timestamp = Some r" and "validated H p dat"
  shows "r = the (answer (map (verified H p dat timestamp)
                   (filter (accepted p dat timestamp) (References p))))"
proof -
  let ?f = "max fuel (Suc (length (Operations p)))"
  from Verify_mono [OF assms(1), of ?f] have "Verify H ?f tape c p dat timestamp = Some r" by simp
  moreover have "Verify H ?f tape c p dat timestamp =
     answer (map (verified H p dat timestamp) (filter (accepted p dat timestamp) (References p)))"
    by (rule Verify_validated [OF assms(2)]) simp
  ultimately show ?thesis by simp
qed

subsection \<open>The example document\<close>

lemma sort_permute: "sort (permute r xs) = sort xs"
  by (rule properties_for_sort) (simp_all add: mset_permute)

lemma permute_single: "permute r [x] = [x]"
  by simp

lemma Verify_exampleProof_3:
  assumes "L \<noteq> []"
  shows "Verify H (Suc (Suc (Suc 0))) tape c (exampleProof L) L 0 =
     Some (Inr [\<lparr>vrData = Sum256 H (Sum512 H L @ L), vrRef = ''X'',
                 vrHashes = [''sha2_256'', ''sha3_512'']\<rparr>])"
  using assms
  by (simp add: Verify_def exampleProof_def timestampData_def operations_def SHA2_256_def
      SHA3_512_def opSha2_256_def opSha3_512_def sint_neg_pred Let_def mapInsert_def sle0_iff
      sless0_iff sort_permute permute_single del: permute.simps)

subsection \<open>The returned references\<close>

lemma finite_walkNames:
  assumes "operationsOk p" and "inRange p (length (Operations p)) pos"
  shows "finite (walkNames p dat tdata pos)"
proof -
  from recData_spec [OF assms, of "Suc (nat (- sint pos))" "\<lambda>_. 0" dat tdata 0]
  obtain hs where "set hs = walkNames p dat tdata pos" by auto
  then show ?thesis by (metis List.finite_set)
qed

lemma validated_reference:
  assumes "validated H p dat" and "r \<in> set (References p)"
  shows "inRange p (length (Operations p)) (rData r)" and "rData r <s 0" and "rRef r \<noteq> []"
  using assms unfolding validated_iff wellformed_def by auto

lemma verified_hashes:
  assumes "validated H p dat" and "r \<in> set (References p)"
  shows "set (vrHashes (verified H p dat timestamp r)) =
           walkNames p dat (timestampData timestamp) (rData r)"
    and "distinct (vrHashes (verified H p dat timestamp r))"
    and "sorted (vrHashes (verified H p dat timestamp r))"
proof -
  from assms(1) have "operationsOk p"
    by (simp add: validated_iff wellformed_operationsOk)
  from finite_walkNames [OF this validated_reference(1) [OF assms]]
  show "set (vrHashes (verified H p dat timestamp r)) =
           walkNames p dat (timestampData timestamp) (rData r)"
    by (simp add: verified_def)
  show "distinct (vrHashes (verified H p dat timestamp r))"
    and "sorted (vrHashes (verified H p dat timestamp r))"
    by (simp_all add: verified_def)
qed

lemma answer_cases: "answer refs = Some (Inl ProvesNothing) \<or> answer refs = Some (Inr refs)"
  by (simp add: answer_def)

lemma answer_Inr: "answer xs = Some (Inr refs) \<Longrightarrow> refs = xs"
  by (simp add: answer_def split: if_splits)

lemma Verify_Inr:
  assumes "Verify H fuel tape c p dat timestamp = Some (Inr refs)"
  shows "validated H p dat"
    and "refs = map (verified H p dat timestamp) (filter (accepted p dat timestamp) (References p))"
proof -
  show v: "validated H p dat"
  proof (rule ccontr)
    assume "\<not> validated H p dat"
    from Verify_not_validated [OF this, of timestamp] assms show False by auto
  qed
  let ?xs = "map (verified H p dat timestamp) (filter (accepted p dat timestamp) (References p))"
  from Verify_Some [OF assms v] have "Inr refs = the (answer ?xs)" .
  with answer_cases [of ?xs] show "refs = ?xs" by auto
qed

subsection \<open>Changing the list of references\<close>

lemma inRange_References [simp]: "inRange (p\<lparr>References := rs\<rparr>) = inRange p"
  by (simp add: inRange_def fun_eq_iff)

lemma edge_References [simp]: "edge (p\<lparr>References := rs\<rparr>) = edge p"
  by (simp add: edge_def fun_eq_iff)

lemma visits_References [simp]: "visits (p\<lparr>References := rs\<rparr>) = visits p"
  by (simp add: visits_def fun_eq_iff)

lemma literalMatch_References [simp]: "literalMatch (p\<lparr>References := rs\<rparr>) = literalMatch p"
  by (simp add: literalMatch_def fun_eq_iff)

lemma walkNames_References [simp]: "walkNames (p\<lparr>References := rs\<rparr>) = walkNames p"
  by (simp add: walkNames_def fun_eq_iff)

lemma operationInput_References [simp]:
  "operationInput (p\<lparr>References := rs\<rparr>) outData ds inBuf = operationInput p outData ds inBuf"
  by (induction ds arbitrary: inBuf) (simp_all add: Let_def)

lemma runOperations_References [simp]:
  "runOperations H (p\<lparr>References := rs\<rparr>) ops outData = runOperations H p ops outData"
  by (induction ops arbitrary: outData) (simp_all split: option.splits sum.splits)

lemma outputs_References [simp]: "outputs H (p\<lparr>References := rs\<rparr>) = outputs H p"
  by (simp add: outputs_def)

lemma accepted_References [simp]: "accepted (p\<lparr>References := rs\<rparr>) = accepted p"
  by (simp add: accepted_def fun_eq_iff)

lemma verified_References [simp]: "verified H (p\<lparr>References := rs\<rparr>) = verified H p"
  by (simp add: verified_def fun_eq_iff)

lemma wellformed_References:
  assumes "wellformed H p dat" and "set rs = set (References p)"
  shows "wellformed H (p\<lparr>References := rs\<rparr>) dat"
proof -
  from assms have "rs \<noteq> []" by (auto simp: wellformed_def)
  with assms show ?thesis by (simp add: wellformed_def)
qed

subsection \<open>The walk stays in range\<close>

lemma edge_inRange:
  assumes "operationsOk p" and "edge p m n"
  shows "inRange p (length (Operations p)) n"
proof -
  from assms(2) have m: "m <s 0" "sint (- m - 1) < int (length (Operations p))"
    "n \<in> set (oData (Operations p ! nat (sint (- m - 1))))"
    by (simp_all add: edge_def)
  from m(1,2) have lt: "nat (sint (- m - 1)) < length (Operations p)"
    by (simp add: sint_neg_pred sless0_iff)
  with assms(1) m(3) have "inRange p (nat (sint (- m - 1))) n"
    by (simp add: operationsOk_def)
  then show ?thesis using lt by (auto intro: inRange_mono)
qed

lemma visits_inRange:
  assumes "operationsOk p" and "visits p a n" and "inRange p (length (Operations p)) a"
  shows "inRange p (length (Operations p)) n"
  using assms(2,3) unfolding visits_def
  by (induction rule: rtranclp_induct) (auto intro: edge_inRange [OF assms(1)])

subsection \<open>The first failing check\<close>

lemma Verify_operations_error:
  assumes "dat \<noteq> []" "Data p \<noteq> []" "\<forall>v \<in> set (Data p). v \<noteq> []" "References p \<noteq> []"
    and "runOperations H p (Operations p) [] = Inl e"
  shows "Verify H fuel tape c p dat timestamp = Some (Inl e)"
proof -
  from assms(3) have "firstEmpty 0 (Data p) = None" by (simp add: firstEmpty_None)
  with assms show ?thesis by (simp add: Verify_def)
qed

lemma resolveReferences_append:
  "resolveReferences p outData (xs @ ys) acc =
     (case resolveReferences p outData xs acc of
        Inl e \<Rightarrow> Inl e
      | Inr acc' \<Rightarrow> resolveReferences p outData ys acc')"
  by (induction xs arbitrary: acc) (simp_all add: Let_def)

text \<open>
  An input index equal to the least 64-bit integer passes the test \<open>-di > len(outData)\<close>,
  because \<open>-di\<close> wraps around to \<open>di\<close>, and the index \<open>-di-1\<close> is then the greatest
  64-bit integer: the slice access panics.
\<close>

lemma Verify_minInt64Proof:
  "Verify H fuel tape c minInt64Proof [7] 0 = Some (Inl IndexOutOfRange)"
  by (simp add: Verify_def minInt64Proof_def operations_def SHA2_256_def SHA3_512_def
      sless0_iff sint_neg_pred Let_def)

section \<open>The claims\<close>

text \<open>
  C1. For a document and root data that pass all checks of \<open>Verify\<close>, and any timestamp,
  \<open>Verify\<close> returns exactly the references, in their order, for which the walk from the
  target finds a literal byte-equal to the root data and, when the timestamp is not zero,
  also a literal byte-equal to the eight big-endian bytes of the timestamp; with a zero
  timestamp the second condition is not asked for. When no reference qualifies the result
  is the error "the proof proves nothing for the input data".
\<close>

theorem C1_accepted_iff_matched:
  assumes "validated H p dat" and "length (Operations p) < fuel"
  shows "Verify H fuel tape c p dat timestamp =
         answer (map (verified H p dat timestamp)
           (filter (\<lambda>r. literalMatch p dat (rData r) \<and>
                         (timestamp \<noteq> 0 \<longrightarrow> literalMatch p (PutUint64 timestamp) (rData r)))
              (References p)))"
proof -
  have "(\<lambda>r. literalMatch p dat (rData r) \<and>
             (timestamp \<noteq> 0 \<longrightarrow> literalMatch p (PutUint64 timestamp) (rData r)))
        = accepted p dat timestamp"
    by (rule ext) (simp add: accepted_def)
  then show ?thesis using Verify_validated [OF assms] by simp
qed

theorem C1_accepted_iff_matched_witness:
  "validated toyHashes diamondProof [7] \<and> length (Operations diamondProof) < 5 \<and>
   answer (map (verified toyHashes diamondProof [7] 9)
     (filter (\<lambda>r. literalMatch diamondProof [7] (rData r) \<and>
                   ((9 :: int64) \<noteq> 0 \<longrightarrow> literalMatch diamondProof (PutUint64 9) (rData r)))
        (References diamondProof))) =
   Some (Inr [\<lparr>vrData = [2, 12], vrRef = ''C'', vrHashes = [''sha2_256'', ''sha3_512'']\<rparr>])"
proof -
  have v: "validated toyHashes diamondProof [7]" by code_simp
  have l: "length (Operations diamondProof) < 5" by (simp add: diamondProof_def)
  have e: "Verify toyHashes 5 (\<lambda>_. 1) 0 diamondProof [7] 9 =
    Some (Inr [\<lparr>vrData = [2, 12], vrRef = ''C'', vrHashes = [''sha2_256'', ''sha3_512'']\<rparr>])"
    by code_simp
  from C1_accepted_iff_matched [OF v l, of "\<lambda>_. 1" 0 9] e v l show ?thesis by simp
qed

text \<open>
  C2. For the document with one non-empty literal \<open>L\<close>, the operations
  \<open>sha3_512([0])\<close> and \<open>sha2_256([-1, 0])\<close> and the reference \<open>{data: -2, ref: "X"}\<close>,
  \<open>Verify(L, 0)\<close> returns one reference: its data is \<open>sha2_256(sha3_512(L) ++ L)\<close>, its
  locator is \<open>"X"\<close>, and its hash functions are \<open>["sha2_256", "sha3_512"]\<close>.
\<close>

theorem C2_example:
  assumes "L \<noteq> []" and "3 \<le> fuel"
  shows "Verify H fuel tape c (exampleProof L) L 0 =
     Some (Inr [\<lparr>vrData = Sum256 H (Sum512 H L @ L), vrRef = ''X'',
                 vrHashes = [''sha2_256'', ''sha3_512'']\<rparr>])"
proof -
  from assms(2) have "Suc (Suc (Suc 0)) \<le> fuel" by simp
  with Verify_exampleProof_3 [OF assms(1)] show ?thesis by (rule Verify_mono)
qed

theorem C2_example_witness:
  "exampleData \<noteq> [] \<and> (3 :: nat) \<le> 3 \<and>
   Verify toyHashes 3 (\<lambda>_. 1) 0 (exampleProof exampleData) exampleData 0 =
     Some (Inr [\<lparr>vrData = Sum256 toyHashes (Sum512 toyHashes exampleData @ exampleData),
                 vrRef = ''X'', vrHashes = [''sha2_256'', ''sha3_512'']\<rparr>])"
proof -
  have n: "exampleData \<noteq> []" by (simp add: exampleData_def)
  have f: "(3 :: nat) \<le> 3" by simp
  from C2_example [OF n f, of toyHashes "\<lambda>_. 1" 0] n f show ?thesis by simp
qed

text \<open>
  C3. When the document and the root data pass all checks of \<open>Verify\<close> and no literal of
  the document is byte-equal to the root data, \<open>Verify\<close> fails with the error "the proof
  proves nothing for the input data" and so returns no reference.
\<close>

theorem C3_proves_nothing:
  assumes "validated H p dat" and "\<forall>v \<in> set (Data p). v \<noteq> dat"
    and "length (Operations p) < fuel"
  shows "Verify H fuel tape c p dat timestamp = Some (Inl ProvesNothing)"
proof -
  have "\<not> literalMatch p dat pos" for pos
  proof
    assume "literalMatch p dat pos"
    then have "dat \<in> set (Data p)"
      unfolding literalMatch_def by (auto simp: sle0_iff nat_less_iff intro!: nth_mem)
    with assms(2) show False by blast
  qed
  then have "filter (accepted p dat timestamp) (References p) = []"
    by (simp add: accepted_def)
  with Verify_validated [OF assms(1,3), of tape c timestamp] show ?thesis
    by (simp add: answer_def)
qed

theorem C3_proves_nothing_witness:
  "validated toyHashes (exampleProof exampleData) [9] \<and>
   [9] \<notin> set (Data (exampleProof exampleData)) \<and>
   length (Operations (exampleProof exampleData)) < 3 \<and>
   Verify toyHashes 3 (\<lambda>_. 0) 0 (exampleProof exampleData) [9] 0 = Some (Inl ProvesNothing)"
proof -
  have v: "validated toyHashes (exampleProof exampleData) [9]" by code_simp
  have m: "[9] \<notin> set (Data (exampleProof exampleData))"
    by (simp add: exampleProof_def exampleData_def)
  then have n: "\<forall>v \<in> set (Data (exampleProof exampleData)). v \<noteq> [9]" by blast
  have l: "length (Operations (exampleProof exampleData)) < 3" by (simp add: exampleProof_def)
  from C3_proves_nothing [OF v n l, of "\<lambda>_. 0" 0 0] v m l show ?thesis by simp
qed

text \<open>
  C4. In every reference that \<open>Verify\<close> returns, no name occurs twice in the list of hash
  functions, whatever the shape of the walk. The names are those of the set
  \<open>walkNames\<close>: the types of the operations on the walk from the target whose own walk
  matched. So the type of an operation that lies on a matched part of the walk of a
  returned reference occurs exactly once in that reference's list, also when the walk
  comes to the operation along several paths or from several references.
\<close>

theorem C4_names_once:
  assumes "Verify H fuel tape c p dat timestamp = Some (Inr refs)"
  shows "(\<forall>v \<in> set refs. distinct (vrHashes v)) \<and>
         list_all2
           (\<lambda>r v. set (vrHashes v) = walkNames p dat (timestampData timestamp) (rData r) \<and>
                  (\<forall>m. visits p (rData r) m \<and> m <s 0 \<and>
                       (literalMatch p dat m \<or> literalMatch p (timestampData timestamp) m) \<longrightarrow>
                       count_list (vrHashes v) (oType (Operations p ! nat (sint (- m - 1)))) = 1))
           (filter (accepted p dat timestamp) (References p)) refs"
proof -
  note v = Verify_Inr(1) [OF assms] and refs = Verify_Inr(2) [OF assms]
  let ?acc = "filter (accepted p dat timestamp) (References p)"
  have mem: "r \<in> set (References p)" if "r \<in> set ?acc" for r using that by simp
  have d: "\<forall>v \<in> set refs. distinct (vrHashes v)"
    unfolding refs using verified_hashes(2) [OF v mem] by auto
  have "set (vrHashes (verified H p dat timestamp r)) =
           walkNames p dat (timestampData timestamp) (rData r) \<and>
        (\<forall>m. visits p (rData r) m \<and> m <s 0 \<and>
             (literalMatch p dat m \<or> literalMatch p (timestampData timestamp) m) \<longrightarrow>
             count_list (vrHashes (verified H p dat timestamp r))
               (oType (Operations p ! nat (sint (- m - 1)))) = 1)"
    if r: "r \<in> set ?acc" for r
  proof (intro conjI allI impI)
    show s: "set (vrHashes (verified H p dat timestamp r)) =
           walkNames p dat (timestampData timestamp) (rData r)"
      by (rule verified_hashes(1) [OF v mem [OF r]])
    fix m
    assume "visits p (rData r) m \<and> m <s 0 \<and>
             (literalMatch p dat m \<or> literalMatch p (timestampData timestamp) m)"
    then have "oType (Operations p ! nat (sint (- m - 1)))
               \<in> walkNames p dat (timestampData timestamp) (rData r)"
      unfolding walkNames_def by blast
    with s have "oType (Operations p ! nat (sint (- m - 1)))
               \<in> set (vrHashes (verified H p dat timestamp r))" by simp
    with verified_hashes(2) [OF v mem [OF r], of timestamp]
    show "count_list (vrHashes (verified H p dat timestamp r))
               (oType (Operations p ! nat (sint (- m - 1)))) = 1"
      by (simp add: distinct_count_atmost_1 flip: count_mset)
  qed
  then have "list_all2
           (\<lambda>r v. set (vrHashes v) = walkNames p dat (timestampData timestamp) (rData r) \<and>
                  (\<forall>m. visits p (rData r) m \<and> m <s 0 \<and>
                       (literalMatch p dat m \<or> literalMatch p (timestampData timestamp) m) \<longrightarrow>
                       count_list (vrHashes v) (oType (Operations p ! nat (sint (- m - 1)))) = 1))
           ?acc refs"
    unfolding refs by (simp add: list_all2_map2 list_all2_same)
  with d show ?thesis by blast
qed

theorem C4_names_once_witness:
  "Verify toyHashes 5 (\<lambda>_. 1) 0 diamondProof [7] 0 =
     Some (Inr [\<lparr>vrData = [2, 4], vrRef = ''A'', vrHashes = [''sha2_256'', ''sha3_512'']\<rparr>,
                \<lparr>vrData = [2, 12], vrRef = ''C'', vrHashes = [''sha2_256'', ''sha3_512'']\<rparr>]) \<and>
   list_all2
     (\<lambda>r v. set (vrHashes v) = walkNames diamondProof [7] (timestampData 0) (rData r) \<and>
            (\<forall>m. visits diamondProof (rData r) m \<and> m <s 0 \<and>
                 (literalMatch diamondProof [7] m \<or>
                  literalMatch diamondProof (timestampData 0) m) \<longrightarrow>
                 count_list (vrHashes v)
                   (oType (Operations diamondProof ! nat (sint (- m - 1)))) = 1))
     (filter (accepted diamondProof [7] 0) (References diamondProof))
     [\<lparr>vrData = [2, 4], vrRef = ''A'', vrHashes = [''sha2_256'', ''sha3_512'']\<rparr>,
      \<lparr>vrData = [2, 12], vrRef = ''C'', vrHashes = [''sha2_256'', ''sha3_512'']\<rparr>]"
proof -
  have e: "Verify toyHashes 5 (\<lambda>_. 1) 0 diamondProof [7] 0 =
     Some (Inr [\<lparr>vrData = [2, 4], vrRef = ''A'', vrHashes = [''sha2_256'', ''sha3_512'']\<rparr>,
                \<lparr>vrData = [2, 12], vrRef = ''C'', vrHashes = [''sha2_256'', ''sha3_512'']\<rparr>])"
    by code_simp
  from C4_names_once [OF e] have l: "list_all2
     (\<lambda>r v. set (vrHashes v) = walkNames diamondProof [7] (timestampData 0) (rData r) \<and>
            (\<forall>m. visits diamondProof (rData r) m \<and> m <s 0 \<and>
                 (literalMatch diamondProof [7] m \<or>
                  literalMatch diamondProof (timestampData 0) m) \<longrightarrow>
                 count_list (vrHashes v)
                   (oType (Operations diamondProof ! nat (sint (- m - 1)))) = 1))
     (filter (accepted diamondProof [7] 0) (References diamondProof))
     [\<lparr>vrData = [2, 4], vrRef = ''A'', vrHashes = [''sha2_256'', ''sha3_512'']\<rparr>,
      \<lparr>vrData = [2, 12], vrRef = ''C'', vrHashes = [''sha2_256'', ''sha3_512'']\<rparr>]"
    by (rule conjunct2)
  from e l show ?thesis by (rule conjI)
qed

text \<open>
  C5. \<open>Verify\<close> is deterministic. For every document, root data and timestamp there is one
  result: every call that is given enough fuel for the recursion returns it, whatever
  order the map iterations take, and no call returns anything else. In a returned
  reference the names of the hash functions are sorted (in the lexicographic order of
  their bytes) and without repetition.
\<close>

theorem C5_deterministic:
  "\<exists>res. (\<forall>fuel tape c. length (Operations p) < fuel \<longrightarrow>
                Verify H fuel tape c p dat timestamp = Some res) \<and>
         (\<forall>fuel tape c r. Verify H fuel tape c p dat timestamp = Some r \<longrightarrow> r = res) \<and>
         (\<forall>refs. res = Inr refs \<longrightarrow>
                (\<forall>v \<in> set refs. sorted (vrHashes v) \<and> distinct (vrHashes v)))"
proof (cases "validated H p dat")
  case False
  from Verify_not_validated [OF this, of timestamp] obtain e where
    e: "\<And>fuel tape c. Verify H fuel tape c p dat timestamp = Some (Inl e)" by blast
  show ?thesis
    by (rule exI [of _ "Inl e"]) (simp add: e)
next
  case True
  let ?xs = "map (verified H p dat timestamp) (filter (accepted p dat timestamp) (References p))"
  have a: "Verify H fuel tape c p dat timestamp = Some (the (answer ?xs))"
    if "length (Operations p) < fuel" for fuel tape c
    using Verify_validated [OF True that, of tape c timestamp] answer_cases [of ?xs] by auto
  have b: "r = the (answer ?xs)" if "Verify H fuel tape c p dat timestamp = Some r"
    for fuel tape c r
    using Verify_Some [OF that True] .
  have c: "sorted (vrHashes v) \<and> distinct (vrHashes v)"
    if "the (answer ?xs) = Inr refs" "v \<in> set refs" for refs v
  proof -
    from that(1) answer_cases [of ?xs] have "refs = ?xs" by auto
    with that(2) obtain r where "r \<in> set (References p)" "v = verified H p dat timestamp r"
      by auto
    with verified_hashes(2,3) [OF True, of r timestamp] show ?thesis by simp
  qed
  show ?thesis
    by (rule exI [of _ "the (answer ?xs)"]) (use a b c in blast)
qed

theorem C5_deterministic_witness:
  "Verify toyHashes 5 (\<lambda>_. 0) 0 diamondProof [7] 9 =
   Verify toyHashes 8 (\<lambda>n. n + 3) 2 diamondProof [7] 9"
proof -
  have l: "length (Operations diamondProof) < 5" "length (Operations diamondProof) < 8"
    by (simp_all add: diamondProof_def)
  from C5_deterministic [of diamondProof toyHashes "[7]" 9] obtain res where
    "\<forall>fuel tape c. length (Operations diamondProof) < fuel \<longrightarrow>
       Verify toyHashes fuel tape c diamondProof [7] 9 = Some res"
    by blast
  with l show ?thesis by simp
qed

text \<open>
  C6. Take a document that passes all checks of \<open>Verify\<close> and put its references in
  another order, leaving operations and literals as they are. Both documents are
  answered by the same rule: the accepted references of the list, each turned into its
  result, in the order of that document's list. Which references are accepted does not
  depend on the order, so both answers hold the same references.
\<close>

theorem C6_reorder_references:
  assumes "validated H p dat" and "mset rs = mset (References p)"
    and "length (Operations p) < fuel"
  shows "Verify H fuel tape c p dat timestamp =
           answer (map (verified H p dat timestamp)
                     (filter (accepted p dat timestamp) (References p))) \<and>
         Verify H fuel tape' c' (p\<lparr>References := rs\<rparr>) dat timestamp =
           answer (map (verified H p dat timestamp) (filter (accepted p dat timestamp) rs)) \<and>
         mset (map (verified H p dat timestamp) (filter (accepted p dat timestamp) rs)) =
         mset (map (verified H p dat timestamp)
                 (filter (accepted p dat timestamp) (References p)))"
proof -
  from assms(2) have s: "set rs = set (References p)" by (rule mset_eq_setD)
  from assms(1) have "wellformed H p dat" by (simp add: validated_iff)
  then have "wellformed H (p\<lparr>References := rs\<rparr>) dat" using s by (rule wellformed_References)
  then have v: "validated H (p\<lparr>References := rs\<rparr>) dat" by (simp add: validated_iff)
  from assms(3) have f: "length (Operations (p\<lparr>References := rs\<rparr>)) < fuel" by simp
  have "Verify H fuel tape' c' (p\<lparr>References := rs\<rparr>) dat timestamp =
           answer (map (verified H p dat timestamp) (filter (accepted p dat timestamp) rs))"
    using Verify_validated [OF v f, of tape' c' timestamp] by simp
  moreover have "mset (map (verified H p dat timestamp) (filter (accepted p dat timestamp) rs)) =
         mset (map (verified H p dat timestamp)
                 (filter (accepted p dat timestamp) (References p)))"
    using assms(2) by simp
  ultimately show ?thesis using Verify_validated [OF assms(1,3), of tape c timestamp] by blast
qed

theorem C6_reorder_references_witness:
  "validated toyHashes diamondProof [7] \<and> 
   mset (rev (References diamondProof)) = mset (References diamondProof) \<and>
   length (Operations diamondProof) < 5 \<and>
   Verify toyHashes 5 (\<lambda>_. 1) 0 (diamondProof\<lparr>References := rev (References diamondProof)\<rparr>) [7] 0 =
     answer (map (verified toyHashes diamondProof [7] 0)
              (filter (accepted diamondProof [7] 0) (rev (References diamondProof))))"
proof -
  have v: "validated toyHashes diamondProof [7]" by code_simp
  have m: "mset (rev (References diamondProof)) = mset (References diamondProof)" by simp
  have l: "length (Operations diamondProof) < 5" by (simp add: diamondProof_def)
  from C6_reorder_references [OF v m l, of "\<lambda>_. 1" 0 0 "\<lambda>_. 1" 0]
  have "Verify toyHashes 5 (\<lambda>_. 1) 0 (diamondProof\<lparr>References := rev (References diamondProof)\<rparr>) [7] 0 =
     answer (map (verified toyHashes diamondProof [7] 0)
              (filter (accepted diamondProof [7] 0) (rev (References diamondProof))))"
    by blast
  with v m l show ?thesis by blast
qed

text \<open>
  C7. Inputs that resolve are read by the convention: a non-negative index \<open>i\<close> is
  the literal \<open>Data[i]\<close>, a negative index \<open>-k\<close> is the output of the \<open>k\<close>-th
  operation. When the root data, the literals and the references are not
  empty, the operations before \<open>opn\<close> have run without error, \<open>opn\<close> has a registered
  type, the inputs of \<open>opn\<close> before \<open>di\<close> resolve and \<open>di\<close> does not (it is \<open>-k\<close> with \<open>k\<close>
  above the number of outputs so far, or a literal index that is not below the number of
  literals), and \<open>di\<close> is not the least 64-bit integer, then \<open>Verify\<close> fails with
  "referencing a output not yet calculated" for a negative \<open>di\<close> and with "refering to
  undefined data element" otherwise.
\<close>

theorem C7_dangling_input:
  assumes "dat \<noteq> []" and "Data p \<noteq> []" and "\<forall>v \<in> set (Data p). v \<noteq> []"
    and "References p \<noteq> []"
    and "Operations p = pre @ opn # post" and "runOperations H p pre [] = Inr outData"
    and "operations H (oType opn) \<noteq> None" and "oData opn = ds @ di # es"
    and "\<forall>d \<in> set ds. inRange p (length pre) d"
    and "\<not> inRange p (length pre) di" and "sint di \<noteq> - (2 ^ 63)"
  shows "operationInput p outData ds [] = Inr (concat (map (resolve p outData) ds)) \<and>
         Verify H fuel tape c p dat timestamp =
           Some (Inl (if di <s 0 then OutputNotYetCalculated di else UndefinedDataElement di))"
proof -
  from runOperations_Inr [OF assms(6)] have len: "length outData = length pre" by simp
  from assms(9) len have ok: "\<forall>d \<in> set ds. inRange p (length outData) d" by simp
  from assms(10) len have bad: "\<not> inRange p (length outData) di" by simp
  from assms(7) obtain f where f: "operations H (oType opn) = Some f" by blast
  have inp: "operationInput p outData (oData opn) [] =
        Inl (if di <s 0 then OutputNotYetCalculated di else UndefinedDataElement di)"
    unfolding assms(8) by (rule operationInput_dangling [OF ok bad assms(11)])
  have "runOperations H p (opn # post) outData =
        Inl (if di <s 0 then OutputNotYetCalculated di else UndefinedDataElement di)"
    using f inp assms(8) by simp
  then have "runOperations H p (Operations p) [] =
        Inl (if di <s 0 then OutputNotYetCalculated di else UndefinedDataElement di)"
    unfolding assms(5) runOperations_append assms(6) by simp
  from Verify_operations_error [OF assms(1-4) this] operationInput_ok [OF ok, of "[]"]
  show ?thesis by simp
qed

theorem C7_dangling_input_witness:
  "Verify toyHashes 2 (\<lambda>_. 0) 0 danglingProof [7] 0 = Some (Inl (OutputNotYetCalculated (- 3))) \<and>
   operationInput danglingProof [[2, 1]] [- 1] [] = Inr [2, 1]"
proof -
  let ?op1 = "\<lparr>oType = ''sha2_256'', oData = [0 :: int64]\<rparr>"
  let ?op2 = "\<lparr>oType = ''sha3_512'', oData = [- 1, - 3, 0 :: int64]\<rparr>"
  have 1: "[7 :: byte] \<noteq> []" by simp
  have 2: "Data danglingProof \<noteq> []" by (simp add: danglingProof_def)
  have 3: "\<forall>v \<in> set (Data danglingProof). v \<noteq> []" by (simp add: danglingProof_def)
  have 4: "References danglingProof \<noteq> []" by (simp add: danglingProof_def)
  have 5: "Operations danglingProof = [?op1] @ ?op2 # []" by (simp add: danglingProof_def)
  have 6: "runOperations toyHashes danglingProof [?op1] [] = Inr [[2, 1]]" by code_simp
  have 7: "operations toyHashes (oType ?op2) \<noteq> None"
    by (simp add: operations_def SHA2_256_def SHA3_512_def)
  have 8: "oData ?op2 = [- 1] @ (- 3) # [0]" by simp
  have 9: "\<forall>d \<in> set [- 1 :: int64]. inRange danglingProof (length [?op1]) d"
    by (simp add: inRange_def sless0_iff)
  have 10: "\<not> inRange danglingProof (length [?op1]) (- 3)"
    by (simp add: inRange_def sless0_iff)
  have 11: "sint (- 3 :: int64) \<noteq> - (2 ^ 63)" by simp
  from C7_dangling_input [OF 1 2 3 4 5 6 7 8 9 10 11, of 2 "\<lambda>_. 0" 0 0]
  show ?thesis by (simp add: resolve_def sless0_iff)
qed

theorem C7_dangling_input_counterexample:
  "- 1 \<in> set (oData (Operations unknownDanglingProof ! 0)) \<and>
   \<not> inRange unknownDanglingProof 0 (- 1) \<and>
   Verify toyHashes 2 (\<lambda>_. 0) 0 unknownDanglingProof [7] 0 =
     Some (Inl (UnknownOperation ''md5'')) \<and>
   \<not> isDanglingReference (UnknownOperation ''md5'')"
proof -
  have "- 1 \<in> set (oData (Operations unknownDanglingProof ! 0))"
    by (simp add: unknownDanglingProof_def)
  moreover have "\<not> inRange unknownDanglingProof 0 (- 1)"
    by (simp add: inRange_def sless0_iff)
  moreover have "Verify toyHashes 2 (\<lambda>_. 0) 0 unknownDanglingProof [7] 0 =
     Some (Inl (UnknownOperation ''md5''))"
    by code_simp
  moreover have "\<not> isDanglingReference (UnknownOperation ''md5'')"
    by (simp add: isDanglingReference_def)
  ultimately show ?thesis by blast
qed

text \<open>
  C8. When everything else is well-formed (root data and literals not empty, the
  operations run without error, every reference has a locator, and every reference with
  a negative target lies within the outputs), a document with a reference whose target
  is not negative makes \<open>Verify\<close> fail on that reference: with "reference must refer to
  calculated data" when the target is the index of a literal, and with "reference refers
  to non-existing data" otherwise.
\<close>

theorem C8_literal_reference_rejected:
  assumes "dat \<noteq> []" and "Data p \<noteq> []" and "\<forall>v \<in> set (Data p). v \<noteq> []"
    and "runOperations H p (Operations p) [] = Inr outData"
    and "\<forall>r \<in> set (References p).
           rRef r \<noteq> [] \<and> (rData r <s 0 \<longrightarrow> inRange p (length (Operations p)) (rData r))"
    and "\<exists>r \<in> set (References p). 0 \<le>s rData r"
  shows "\<exists>e. Verify H fuel tape c p dat timestamp = Some (Inl e) \<and>
             isInvalidReferenceTarget e \<and>
             (\<exists>r \<in> set (References p). 0 \<le>s rData r \<and>
                e = (if sint (rData r) < int (length (Data p)) then ReferenceNotCalculated
                     else ReferenceNonExisting (rData r)))"
proof -
  from assms(6) have "\<exists>r \<in> set (References p). \<not> rData r <s 0"
    by (simp add: sle0_not_sless0)
  from split_list_first_prop [OF this] obtain rs1 r0 rs2 where
    split: "References p = rs1 @ r0 # rs2" and r0: "\<not> rData r0 <s 0"
    and rs1: "\<forall>r \<in> set rs1. rData r <s 0"
    by auto
  let ?e = "if sint (rData r0) < int (length (Data p)) then ReferenceNotCalculated
            else ReferenceNonExisting (rData r0)"
  from runOperations_Inr [OF assms(4)] have len: "length outData = length (Operations p)"
    by simp
  from assms(5) rs1 split len have
    "\<forall>r \<in> set rs1. rRef r \<noteq> [] \<and> rData r <s 0 \<and> inRange p (length outData) (rData r)"
    by simp
  from resolveReferences_ok [OF this, of "[]"]
  have a: "resolveReferences p outData rs1 [] = Inr (map (resolved outData) rs1)" by simp
  from assms(5) split have "rRef r0 \<noteq> []" by simp
  with r0 have b: "resolveReferences p outData (r0 # rs2) acc = Inl ?e" for acc by simp
  have res: "resolveReferences p outData (References p) [] = Inl ?e"
    unfolding split resolveReferences_append a using b by simp
  from assms(3) have fe: "firstEmpty 0 (Data p) = None" by (simp add: firstEmpty_None)
  from split have ne: "References p \<noteq> []" by simp
  have v: "Verify H fuel tape c p dat timestamp = Some (Inl ?e)"
    using assms(1,2,4) fe ne res by (simp add: Verify_def)
  have i: "isInvalidReferenceTarget ?e" by (simp add: isInvalidReferenceTarget_def)
  have m: "r0 \<in> set (References p)" "0 \<le>s rData r0"
    using split r0 by (simp_all add: sle0_not_sless0)
  from v i m show ?thesis by blast
qed

theorem C8_literal_reference_rejected_witness:
  "Verify toyHashes 2 (\<lambda>_. 0) 0 literalReferenceProof [7] 0 = Some (Inl ReferenceNotCalculated) \<and>
   isInvalidReferenceTarget ReferenceNotCalculated"
proof -
  have 1: "[7 :: byte] \<noteq> []" by simp
  have 2: "Data literalReferenceProof \<noteq> []" by (simp add: literalReferenceProof_def)
  have 3: "\<forall>v \<in> set (Data literalReferenceProof). v \<noteq> []"
    by (simp add: literalReferenceProof_def)
  have 4: "runOperations toyHashes literalReferenceProof (Operations literalReferenceProof) [] =
           Inr [[2, 1]]" by code_simp
  have 5: "\<forall>r \<in> set (References literalReferenceProof).
           rRef r \<noteq> [] \<and>
           (rData r <s 0 \<longrightarrow>
            inRange literalReferenceProof (length (Operations literalReferenceProof)) (rData r))"
    by (simp add: literalReferenceProof_def inRange_def sless0_iff)
  have 6: "\<exists>r \<in> set (References literalReferenceProof). 0 \<le>s rData r"
    by (simp add: literalReferenceProof_def)
  have e: "Verify toyHashes 2 (\<lambda>_. 0) 0 literalReferenceProof [7] 0 =
           Some (Inl ReferenceNotCalculated)" by code_simp
  from C8_literal_reference_rejected [OF 1 2 3 4 5 6, of 2 "\<lambda>_. 0" 0 0] e
  show ?thesis by auto
qed

text \<open>
  C9. When the root data, the literals and the references are not empty and the
  operations before \<open>opn\<close> have run without error, an operation \<open>opn\<close>
  whose type is not a key of the registry makes \<open>Verify\<close> fail with "unknown operation"
  and that type, whatever the inputs of \<open>opn\<close>, the operations after it and the
  references are.
\<close>

theorem C9_unknown_operation:
  assumes "dat \<noteq> []" and "Data p \<noteq> []" and "\<forall>v \<in> set (Data p). v \<noteq> []"
    and "References p \<noteq> []"
    and "Operations p = pre @ opn # post" and "runOperations H p pre [] = Inr outData"
    and "operations H (oType opn) = None"
  shows "Verify H fuel tape c p dat timestamp = Some (Inl (UnknownOperation (oType opn)))"
proof -
  have "runOperations H p (opn # post) outData = Inl (UnknownOperation (oType opn))"
    using assms(7) by simp
  then have "runOperations H p (Operations p) [] = Inl (UnknownOperation (oType opn))"
    unfolding assms(5) runOperations_append assms(6) by simp
  from Verify_operations_error [OF assms(1-4) this] show ?thesis .
qed

theorem C9_unknown_operation_witness:
  "Verify toyHashes 2 (\<lambda>_. 0) 0 unknownProof [7] 0 = Some (Inl (UnknownOperation ''md5''))"
proof -
  let ?op1 = "\<lparr>oType = ''sha2_256'', oData = [0 :: int64]\<rparr>"
  let ?op2 = "\<lparr>oType = ''md5'', oData = [- 7 :: int64]\<rparr>"
  let ?op3 = "\<lparr>oType = ''sha1'', oData = ([] :: int64 list)\<rparr>"
  have 1: "[7 :: byte] \<noteq> []" by simp
  have 2: "Data unknownProof \<noteq> []" by (simp add: unknownProof_def)
  have 3: "\<forall>v \<in> set (Data unknownProof). v \<noteq> []" by (simp add: unknownProof_def)
  have 4: "References unknownProof \<noteq> []" by (simp add: unknownProof_def)
  have 5: "Operations unknownProof = [?op1] @ ?op2 # [?op3]" by (simp add: unknownProof_def)
  have 6: "runOperations toyHashes unknownProof [?op1] [] = Inr [[2, 1]]" by code_simp
  have 7: "operations toyHashes (oType ?op2) = None"
    by (simp add: operations_def SHA2_256_def SHA3_512_def)
  from C9_unknown_operation [OF 1 2 3 4 5 6 7, of 2 "\<lambda>_. 0" 0 0]
  show ?thesis by simp
qed

theorem C9_unknown_operation_counterexample:
  "operations toyHashes (oType (Operations danglingThenUnknownProof ! 1)) = None \<and>
   Verify toyHashes 2 (\<lambda>_. 0) 0 danglingThenUnknownProof [7] 0 =
     Some (Inl (OutputNotYetCalculated (- 1))) \<and>
   \<not> isUnknownOperation (OutputNotYetCalculated (- 1))"
proof -
  have "operations toyHashes (oType (Operations danglingThenUnknownProof ! 1)) = None"
    by (simp add: danglingThenUnknownProof_def operations_def SHA2_256_def SHA3_512_def)
  moreover have "Verify toyHashes 2 (\<lambda>_. 0) 0 danglingThenUnknownProof [7] 0 =
     Some (Inl (OutputNotYetCalculated (- 1)))"
    by code_simp
  moreover have "\<not> isUnknownOperation (OutputNotYetCalculated (- 1))"
    by (simp add: isUnknownOperation_def)
  ultimately show ?thesis by blast
qed

text \<open>
  C10. When the root data, the literals and the references are not empty, every
  operation has a registered type and at least one input, every input resolves against
  the literals and the outputs before it, and every reference has a locator and a
  negative target within the outputs, then every position that the walk of \<open>recData\<close>
  from a reference's target comes to is in range: a non-negative position is less than
  the number of literals, a negative position \<open>-k\<close> has \<open>k\<close> at most the number of
  operations, and the index \<open>-pos-1\<close> that the code computes lies within the
  operations. The walk returns without a panic when its fuel exceeds the number of
  operations, and \<open>Verify\<close> returns either the accepted references or the error "the
  proof proves nothing for the input data".
\<close>

theorem C10_walk_in_range:
  assumes "wellformed H p dat" and "length (Operations p) < fuel"
  shows "(\<forall>r \<in> set (References p). \<forall>n. visits p (rData r) n \<longrightarrow>
            (if n <s 0
             then - sint n \<le> int (length (Operations p)) \<and>
                  0 \<le> sint (- n - 1) \<and> sint (- n - 1) < int (length (Operations p))
             else sint n < int (length (Data p)))) \<and>
         (\<forall>r \<in> set (References p).
            \<exists>res c'. recData fuel tape p dat tdata (rData r) c = Some (Inr (res, c'))) \<and>
         (\<exists>refs. Verify H fuel tape c p dat timestamp = Some (Inl ProvesNothing) \<or>
                 Verify H fuel tape c p dat timestamp = Some (Inr refs))"
proof (intro conjI ballI allI impI)
  from assms(1) have ok: "operationsOk p" by (rule wellformed_operationsOk)
  from assms(1) have v: "validated H p dat" by (simp add: validated_iff)
  {
    fix r n
    assume r: "r \<in> set (References p)" and n: "visits p (rData r) n"
    from visits_inRange [OF ok n validated_reference(1) [OF v r]]
    have "inRange p (length (Operations p)) n" .
    then show "if n <s 0
             then - sint n \<le> int (length (Operations p)) \<and>
                  0 \<le> sint (- n - 1) \<and> sint (- n - 1) < int (length (Operations p))
             else sint n < int (length (Data p))"
      by (auto simp: inRange_def sint_neg_pred sless0_iff)
  }
  {
    fix r
    assume r: "r \<in> set (References p)"
    note rng = validated_reference(1) [OF v r]
    with assms(2) validated_reference(2) [OF v r] have "nat (- sint (rData r)) < fuel"
      by (simp add: inRange_def)
    from recData_spec [OF ok rng this, of tape dat tdata c]
    show "\<exists>res c'. recData fuel tape p dat tdata (rData r) c = Some (Inr (res, c'))"
      by blast
  }
  from Verify_validated [OF v assms(2), of tape c timestamp]
    answer_cases [of "map (verified H p dat timestamp)
       (filter (accepted p dat timestamp) (References p))"]
  show "\<exists>refs. Verify H fuel tape c p dat timestamp = Some (Inl ProvesNothing) \<or>
                 Verify H fuel tape c p dat timestamp = Some (Inr refs)"
    by auto
qed

theorem C10_walk_in_range_witness:
  "wellformed toyHashes diamondProof [7] \<and> length (Operations diamondProof) < 5 \<and>
   (\<exists>res c'. recData 5 (\<lambda>_. 1) diamondProof [7] [] (- 3) 0 = Some (Inr (res, c'))) \<and>
   sint (- (- 1 :: int64) - 1) < int (length (Operations diamondProof))"
proof -
  have "validated toyHashes diamondProof [7]" by code_simp
  then have w: "wellformed toyHashes diamondProof [7]" by (simp add: validated_iff)
  have l: "length (Operations diamondProof) < 5" by (simp add: diamondProof_def)
  have r: "\<lparr>rData = - 3, rTimestamp = 0, rRef = ''C''\<rparr> \<in> set (References diamondProof)"
    by (simp add: diamondProof_def)
  have "edge diamondProof (- 3) (- 1)"
    by (simp add: edge_def diamondProof_def sint_neg_pred sless0_iff)
  then have vis: "visits diamondProof (- 3) (- 1)"
    by (simp add: visits_def)
  note c10 = C10_walk_in_range [OF w l, where tape = "\<lambda>_. 1" and tdata = "[]" and c = 0
      and timestamp = 0]
  from c10 r have a: "\<exists>res c'. recData 5 (\<lambda>_. 1) diamondProof [7] [] (- 3) 0 = Some (Inr (res, c'))"
    by fastforce
  from c10 r vis have "if (- 1 :: int64) <s 0
             then - sint (- 1 :: int64) \<le> int (length (Operations diamondProof)) \<and>
                  0 \<le> sint (- (- 1 :: int64) - 1) \<and>
                  sint (- (- 1 :: int64) - 1) < int (length (Operations diamondProof))
             else sint (- 1 :: int64) < int (length (Data diamondProof))"
    by fastforce
  then have b: "sint (- (- 1 :: int64) - 1) < int (length (Operations diamondProof))"
    by (simp add: sless0_iff)
  from w l a b show ?thesis by blast
qed

end
